theory Spec2Isabelle
  imports Complex_Main "HOL-Library.Multiset" "HOL-Library.Log_Nat"
begin

section \<open>Text: code points, whitespace, case tables\<close>

text \<open>
  A Python \<open>str\<close> is a sequence of Unicode code points, and \<open>len\<close> counts code points.
  The bullet glyphs of \<open>BULLET_CHARS\<close> lie outside ASCII, so a string is modelled as a list
  of code points (natural numbers), not as a list of 8-bit characters. Style names of the
  document are plain ASCII and are kept as \<open>string\<close>.
\<close>

type_synonym ustring = "nat list"

definition ustr :: "string \<Rightarrow> ustring" where
  "ustr s = map of_char s"

text \<open>
  \<open>str.isspace\<close>, \<open>str.strip\<close> and the regular expression class \<open>\s\<close> agree on one finite
  set of code points: U+0009..U+000D, U+001C..U+0020, U+0085, U+00A0, U+1680,
  U+2000..U+200A, U+2028, U+2029, U+202F, U+205F and U+3000.
\<close>

definition py_isspace :: "nat \<Rightarrow> bool" where
  "py_isspace c = (c \<in> set [9, 10, 11, 12, 13, 28, 29, 30, 31, 32, 133, 160, 5760,
      8192, 8193, 8194, 8195, 8196, 8197, 8198, 8199, 8200, 8201, 8202,
      8232, 8233, 8239, 8287, 12288])"

definition lstrip :: "ustring \<Rightarrow> ustring" where
  "lstrip s = dropWhile py_isspace s"

definition rstrip :: "ustring \<Rightarrow> ustring" where
  "rstrip s = rev (dropWhile py_isspace (rev s))"

definition strip :: "ustring \<Rightarrow> ustring" where
  "strip s = rstrip (lstrip s)"

text \<open>
  The case tables of the Unicode character database are not part of the repository; the
  functions that consult them (\<open>str.isupper\<close>, \<open>str.lower\<close>, the class \<open>\d\<close>) take them
  as a parameter. \<open>ucd_upper\<close> is the uppercase test of one code point, \<open>ucd_lower\<close> the test
  "lowercase or titlecase" (a cased code point that is not upper), \<open>ucd_tolower\<close> the full
  lowercase mapping of one code point and \<open>ucd_digit\<close> the decimal digit test.
\<close>

record ucd =
  ucd_upper :: "nat \<Rightarrow> bool"
  ucd_lower :: "nat \<Rightarrow> bool"
  ucd_tolower :: "nat \<Rightarrow> nat list"
  ucd_digit :: "nat \<Rightarrow> bool"

text \<open>
  The fragment of the tables for Basic Latin and Latin-1 (U+0000..U+00FF), used wherever a
  concrete table is needed. Beyond U+00FF it treats every code point as caseless.
\<close>

definition latin1_upper :: "nat \<Rightarrow> bool" where
  "latin1_upper c = ((65 \<le> c \<and> c \<le> 90) \<or> (192 \<le> c \<and> c \<le> 222 \<and> c \<noteq> 215))"

definition latin1_lower :: "nat \<Rightarrow> bool" where
  "latin1_lower c = ((97 \<le> c \<and> c \<le> 122) \<or> c = 170 \<or> c = 181 \<or> c = 186
      \<or> (223 \<le> c \<and> c \<le> 255 \<and> c \<noteq> 247))"

definition latin1_tolower :: "nat \<Rightarrow> nat list" where
  "latin1_tolower c = (if latin1_upper c then [c + 32] else [c])"

definition latin1_digit :: "nat \<Rightarrow> bool" where
  "latin1_digit c = (48 \<le> c \<and> c \<le> 57)"

definition latin1_ucd :: ucd where
  "latin1_ucd = \<lparr> ucd_upper = latin1_upper, ucd_lower = latin1_lower,
      ucd_tolower = latin1_tolower, ucd_digit = latin1_digit \<rparr>"

text \<open>
  \<open>str.isupper\<close>: no code point is lowercase or titlecase, and at least one is uppercase.
  \<open>str.lower\<close> maps every code point through the lowercase mapping.
\<close>

definition isupper_str :: "ucd \<Rightarrow> ustring \<Rightarrow> bool" where
  "isupper_str tbl s = (\<not> list_ex (ucd_lower tbl) s \<and> list_ex (ucd_upper tbl) s)"

definition lower_str :: "ucd \<Rightarrow> ustring \<Rightarrow> ustring" where
  "lower_str tbl s = concat (map (ucd_tolower tbl) s)"

definition startswith :: "'a list \<Rightarrow> 'a list \<Rightarrow> bool" where
  "startswith s p = (take (length p) s = p)"

definition endswith_colon :: "ustring \<Rightarrow> bool" where
  "endswith_colon s = (case rev s of [] \<Rightarrow> False | c # _ \<Rightarrow> c = 58)"

section \<open>Line classifier (convert_pdf_to_docx.py)\<close>

definition BULLET_CHARS :: "nat list" where
  "BULLET_CHARS = [10147, 10148, 10146, 10132,
      8226, 9702, 183, 8729, 8227, 8259,
      9642, 9632, 9724, 9726, 9723, 9633,
      45, 8211, 8212]"

text \<open>
  \<open>BULLET_RE = ^\s*(?:glyph)\s+(.*\S)\s*$\<close>, matched from the start of the string.
  No glyph is whitespace, so the leading \<open>\s*\<close> takes exactly the leading whitespace and
  the next code point must be a glyph. At least one whitespace code point follows. Group 1
  ends at a non-space code point and only whitespace may follow it up to the end, so it ends
  at the last non-space code point of the string; \<open>.\<close> excludes only the line feed (10), so
  the group may start anywhere in the whitespace run after the glyph, and the greedy
  \<open>\s+\<close> makes it start at the first non-space code point. A line feed between the two
  ends makes every alternative fail. The result is group 1, or \<open>None\<close> without a match.
\<close>

definition BULLET_RE_match :: "ustring \<Rightarrow> ustring option" where
  "BULLET_RE_match s =
     (case lstrip s of
        [] \<Rightarrow> None
      | c # rest \<Rightarrow>
          if c \<notin> set BULLET_CHARS then None
          else (case rest of
                  [] \<Rightarrow> None
                | w # _ \<Rightarrow>
                    if \<not> py_isspace w then None
                    else (let g = strip rest
                          in if g = [] \<or> 10 \<in> set g then None else Some g)))"

definition bullet_text :: "ustring \<Rightarrow> ustring option" where
  "bullet_text line = (case BULLET_RE_match line of None \<Rightarrow> None | Some g \<Rightarrow> Some (strip g))"

text \<open>\<open>re.findall(r"[A-Za-z']+", l)\<close>: the maximal runs of ASCII letters and apostrophes.\<close>

definition is_word_char :: "nat \<Rightarrow> bool" where
  "is_word_char c = ((65 \<le> c \<and> c \<le> 90) \<or> (97 \<le> c \<and> c \<le> 122) \<or> c = 39)"

fun findall_words_acc :: "ustring \<Rightarrow> ustring \<Rightarrow> ustring list" where
  "findall_words_acc cur [] = (if cur = [] then [] else [rev cur])"
| "findall_words_acc cur (c # cs) =
     (if is_word_char c then findall_words_acc (c # cur) cs
      else (if cur = [] then [] else [rev cur]) @ findall_words_acc [] cs)"

definition findall_words :: "ustring \<Rightarrow> ustring list" where
  "findall_words l = findall_words_acc [] l"

text \<open>
  \<open>title_like = sum(1 for w in words if w[0].isupper()) / max(1, len(words))\<close>. The
  quotient of two small counts is compared with 0.7; a line of at most 80 code points has at
  most 40 words, so the floating-point quotient is on the same side of 0.7 as the exact one,
  and the model computes with rationals. \<open>w[0]\<close> is \<open>take 1 w\<close>: a word is never empty.
\<close>

definition title_like :: "ucd \<Rightarrow> ustring list \<Rightarrow> rat" where
  "title_like tbl words =
     of_nat (length (filter (\<lambda>w. isupper_str tbl (take 1 w)) words))
       / of_nat (max 1 (length words))"

definition looks_like_heading :: "ucd \<Rightarrow> ustring \<Rightarrow> bool" where
  "looks_like_heading tbl line =
     (let l = strip line in
      if l = [] then False
      else if BULLET_RE_match l \<noteq> None then False
      else if length l > 80 then False
      else if endswith_colon l then True
      else (let words = findall_words l in
            if words = [] then False
            else if isupper_str tbl l \<and> length l \<le> 60 then True
            else if title_like tbl words \<ge> 7 / 10 \<and> length l \<le> 70 then True
            else False))"

text \<open>
  The heading rule in the words of the specification, on the line as given: not a bullet
  marker match, length at most 80, and one of: ends with a colon; fully upper-case and at
  most 60 long; at least 70% of the alphabetic words capitalized and at most 70 long.
\<close>

definition heading_rule_spec :: "ucd \<Rightarrow> ustring \<Rightarrow> bool" where
  "heading_rule_spec tbl line =
     (BULLET_RE_match line = None \<and> length line \<le> 80 \<and>
      (endswith_colon line
       \<or> (isupper_str tbl line \<and> length line \<le> 60)
       \<or> (title_like tbl (findall_words line) \<ge> 7 / 10 \<and> length line \<le> 70)))"

text \<open>
  The rule the code implements: the tests are made on the trimmed line, and the upper-case
  and capitalized-words alternatives need at least one word of ASCII letters.
\<close>

definition heading_rule_code :: "ucd \<Rightarrow> ustring \<Rightarrow> bool" where
  "heading_rule_code tbl l =
     (BULLET_RE_match l = None \<and> length l \<le> 80 \<and>
      (endswith_colon l
       \<or> (findall_words l \<noteq> [] \<and>
           ((isupper_str tbl l \<and> length l \<le> 60)
            \<or> (title_like tbl (findall_words l) \<ge> 7 / 10 \<and> length l \<le> 70)))))"

section \<open>Floating point\<close>

text \<open>
  A Python float is an IEEE double; a finite double is a rational number, and comparison,
  \<open>abs\<close>, \<open>min\<close>, \<open>max\<close> and sorting are exact on it. The operations that round are
  taken as a parameter: the difference of two floats, the \<open>sum\<close> of a list of floats and
  the quotient of two floats. What \<open>sum\<close> computes depends on the interpreter (addition
  from left to right, or a compensated sum in later versions), so the results below are
  proved for whatever the three operations compute.
\<close>

record float_ops =
  fl_sub :: "rat \<Rightarrow> rat \<Rightarrow> rat"
  fl_sum :: "rat list \<Rightarrow> rat"
  fl_div :: "rat \<Rightarrow> rat \<Rightarrow> rat"

text \<open>Python's \<open>round\<close> on one argument: to the nearest integer, ties to the even one.\<close>

definition py_round :: "rat \<Rightarrow> int" where
  "py_round q =
     (let f = \<lfloor>q\<rfloor>; d = q - of_int f
      in if d < 1 / 2 then f
         else if 1 / 2 < d then f + 1
         else if even f then f else f + 1)"

text \<open>
  Rounding to the nearest double, ties to even: a double has 53 significant bits, and its
  unit in the last place is \<open>2 ^ (e - 52)\<close> for a value in \<open>[2 ^ e, 2 ^ (e + 1))\<close>, with
  \<open>e\<close> not below -1022 (the subnormal range). Values beyond the largest double are outside
  this model. \<open>binary_exponent q\<close> is the \<open>e\<close> of a positive \<open>q\<close>, found from the bit
  lengths of its numerator and denominator.
\<close>

definition binary_exponent :: "rat \<Rightarrow> int" where
  "binary_exponent q =
     (let a = fst (quotient_of q); b = snd (quotient_of q);
          d = int (floorlog 2 (nat a)) - int (floorlog 2 (nat b))
      in if power_int 2 d \<le> q then d else d - 1)"

definition round_to_double :: "rat \<Rightarrow> rat" where
  "round_to_double q =
     (if q = 0 then 0
      else (let e = max (binary_exponent \<bar>q\<bar>) (- 1022);
                ulp = power_int 2 (e - 52)
            in of_int (py_round (q / ulp)) * ulp))"

text \<open>
  Double arithmetic with the sum taken from left to right, starting from 0, as \<open>sum\<close>
  does in the interpreters that do not compensate.
\<close>

definition double_ops :: float_ops where
  "double_ops = \<lparr> fl_sub = (\<lambda>x y. round_to_double (x - y)),
      fl_sum = foldl (\<lambda>s x. round_to_double (s + x)) 0,
      fl_div = (\<lambda>x y. round_to_double (x / y)) \<rparr>"

section \<open>Coordinate level inference (convert_pdf_to_docx.py)\<close>

text \<open>
  A page's offsets are taken as given; reading them out of the page geometry is the work of
  the PDF library. The centre of a cluster is \<open>sum(c) / len(c)\<close>.
\<close>

definition mean :: "float_ops \<Rightarrow> rat list \<Rightarrow> rat" where
  "mean fp c = fl_div fp (fl_sum fp c) (of_nat (length c))"

text \<open>
  One step of the loop over the sorted offsets: \<open>clusters[-1][-1]\<close> is the last offset of
  the last cluster. The list of clusters and each cluster are never empty here.
\<close>

definition add_to_clusters :: "float_ops \<Rightarrow> rat \<Rightarrow> rat list list \<Rightarrow> rat \<Rightarrow> rat list list" where
  "add_to_clusters fp tol clusters x =
     (if \<bar>fl_sub fp x (last (last clusters))\<bar> \<le> tol
      then butlast clusters @ [last clusters @ [x]]
      else clusters @ [[x]])"

definition greedy_clusters :: "float_ops \<Rightarrow> rat list \<Rightarrow> rat \<Rightarrow> rat list list" where
  "greedy_clusters fp xs tol =
     (case sort xs of
        [] \<Rightarrow> []
      | x0 # rest \<Rightarrow> foldl (add_to_clusters fp tol) [[x0]] rest)"

definition cluster_x_positions :: "float_ops \<Rightarrow> rat list \<Rightarrow> rat \<Rightarrow> rat list" where
  "cluster_x_positions fp xs tol = sort (map (mean fp) (greedy_clusters fp xs tol))"

text \<open>
  \<open>min(range(len(centers)), key=...)\<close> returns the first index whose key is minimal: the
  scan keeps the best index so far and replaces it only by a strictly smaller key. The
  range is not empty where the function is called (the page has an offset, so a centre).
\<close>

fun argmin_key :: "(nat \<Rightarrow> rat) \<Rightarrow> nat \<Rightarrow> nat list \<Rightarrow> nat" where
  "argmin_key key best [] = best"
| "argmin_key key best (i # is) =
     (if key i < key best then argmin_key key i is else argmin_key key best is)"

definition nearest_center :: "float_ops \<Rightarrow> rat list \<Rightarrow> rat \<Rightarrow> nat" where
  "nearest_center fp centers x =
     argmin_key (\<lambda>i. \<bar>fl_sub fp x (centers ! i)\<bar>) 0 [1..<length centers]"

definition levels_for_bullets_on_page :: "float_ops \<Rightarrow> rat list \<Rightarrow> nat list" where
  "levels_for_bullets_on_page fp bullet_xs =
     (if bullet_xs = [] then []
      else (let centers = cluster_x_positions fp bullet_xs 4
            in map (\<lambda>x. max 0 (min (nearest_center fp centers x) 2)) bullet_xs))"

text \<open>
  The level in the words of the specification: the index, in ascending order of centroid,
  of the cluster the offset was grouped into, capped at 2.
\<close>

fun cluster_index :: "rat list list \<Rightarrow> rat \<Rightarrow> nat" where
  "cluster_index [] x = 0"
| "cluster_index (c # cs) x = (if x \<in> set c then 0 else Suc (cluster_index cs x))"

definition level_by_cluster_spec :: "float_ops \<Rightarrow> rat list \<Rightarrow> rat \<Rightarrow> nat" where
  "level_by_cluster_spec fp xs x =
     min (cluster_index (sort_key (mean fp) (greedy_clusters fp xs 4)) x) 2"

text \<open>
  The same clusters by recursion over the sorted offsets, for the proofs: \<open>chunk\<close> carries
  the open cluster. A cluster is \<open>chained\<close> when each offset is within the tolerance of the
  one before it, and clusters are \<open>separated\<close> when each starts farther than the tolerance
  from the end of the one before it, both in the computed difference.
\<close>

fun chunk :: "float_ops \<Rightarrow> rat \<Rightarrow> rat list \<Rightarrow> rat list \<Rightarrow> rat list list" where
  "chunk fp tol cur [] = [cur]"
| "chunk fp tol cur (x # xs) =
     (if \<bar>fl_sub fp x (last cur)\<bar> \<le> tol then chunk fp tol (cur @ [x]) xs
      else cur # chunk fp tol [x] xs)"

fun chained :: "float_ops \<Rightarrow> rat \<Rightarrow> rat list \<Rightarrow> bool" where
  "chained fp tol [] = True"
| "chained fp tol [x] = True"
| "chained fp tol (x # y # r) = (\<bar>fl_sub fp y x\<bar> \<le> tol \<and> chained fp tol (y # r))"

fun separated :: "float_ops \<Rightarrow> rat \<Rightarrow> rat list list \<Rightarrow> bool" where
  "separated fp tol [] = True"
| "separated fp tol [c] = True"
| "separated fp tol (c # d # r) =
     (tol < \<bar>fl_sub fp (hd d) (last c)\<bar> \<and> separated fp tol (d # r))"

section \<open>Documents: paragraphs, runs, lengths\<close>

text \<open>
  A length of the document library is an integer number of EMU; \<open>Pt\<close> builds one from
  points (12700 EMU each, truncated toward zero) and \<open>.pt\<close> reads it back as points. The
  indents written below are whole twips (635 EMU), the unit the document stores, so they
  are read back as they were written.
\<close>

definition Pt :: "rat \<Rightarrow> int" where
  "Pt x = (if 0 \<le> x then \<lfloor>x * 12700\<rfloor> else - \<lfloor>- x * 12700\<rfloor>)"

definition pt_of :: "int \<Rightarrow> rat" where
  "pt_of emu = of_int emu / 12700"

text \<open>
  A run carries its text and character formatting; \<open>bold\<close>, \<open>italic\<close> and \<open>underline\<close> are
  tri-state in the library (\<open>None\<close> inherits). A paragraph carries the name of its style
  (\<open>Normal\<close> when none was given), its runs and its direct indents. The text of a paragraph
  is the concatenation of its runs' texts.
\<close>

record run =
  run_text :: ustring
  run_bold :: "bool option"
  run_italic :: "bool option"
  run_underline :: "bool option"
  run_font_name :: "string option"
  run_font_size :: "int option"

record para =
  para_style :: string
  para_runs :: "run list"
  left_indent :: "int option"
  first_line_indent :: "int option"

definition para_text :: "para \<Rightarrow> ustring" where
  "para_text p = concat (map run_text (para_runs p))"

datatype error = KeyError string

text \<open>\<open>doc.styles[name]\<close> raises \<open>KeyError\<close> when the document defines no style of that name.\<close>

definition styles_lookup :: "string list \<Rightarrow> string \<Rightarrow> error + string" where
  "styles_lookup styles name = (if name \<in> set styles then Inr name else Inl (KeyError name))"

text \<open>
  The converter builds its document on the library's default template, which defines the
  styles named here (among others).
\<close>

definition default_template_styles :: "string list" where
  "default_template_styles =
     [''Normal'', ''List Bullet'', ''List Bullet 2'', ''List Bullet 3'', ''List Paragraph'']"

section \<open>Outline assembler (convert_pdf_to_docx.py)\<close>

definition is_linebreak :: "nat \<Rightarrow> bool" where
  "is_linebreak c = (c \<in> set [10, 11, 12, 13, 28, 29, 30, 133, 8232, 8233])"

text \<open>\<open>str.splitlines\<close>: the line boundaries above, with CR LF as one boundary, no final empty line.\<close>

fun splitlines_acc :: "ustring \<Rightarrow> ustring \<Rightarrow> ustring list" where
  "splitlines_acc cur [] = (if cur = [] then [] else [rev cur])"
| "splitlines_acc cur [c] = (if is_linebreak c then [rev cur] else [rev (c # cur)])"
| "splitlines_acc cur (c # d # cs) =
     (if c = 13 \<and> d = 10 then rev cur # splitlines_acc [] cs
      else if is_linebreak c then rev cur # splitlines_acc [] (d # cs)
      else splitlines_acc (c # cur) (d # cs))"

definition splitlines :: "ustring \<Rightarrow> ustring list" where
  "splitlines text = splitlines_acc [] text"

text \<open>\<open>re.sub(r"\s+", " ", s)\<close>: every maximal run of whitespace becomes one space.\<close>

fun collapse_ws_from :: "bool \<Rightarrow> ustring \<Rightarrow> ustring" where
  "collapse_ws_from in_ws [] = []"
| "collapse_ws_from in_ws (c # cs) =
     (if py_isspace c
      then (if in_ws then collapse_ws_from True cs else 32 # collapse_ws_from True cs)
      else c # collapse_ws_from False cs)"

definition collapse_ws :: "ustring \<Rightarrow> ustring" where
  "collapse_ws s = collapse_ws_from False s"

definition is_footer_noise :: "ucd \<Rightarrow> ustring \<Rightarrow> bool" where
  "is_footer_noise tbl line =
     (let l = strip line in
      if l = [] then True
      else if list_all (ucd_digit tbl) l then True
      else if 64 \<in> set l then True
      else if startswith (lower_str tbl l) (ustr ''further reading'') then True
      else False)"

definition normalize_lines :: "ucd \<Rightarrow> ustring \<Rightarrow> ustring list" where
  "normalize_lines tbl text =
     filter (\<lambda>line. line \<noteq> [] \<and> \<not> is_footer_noise tbl line)
       (map (\<lambda>line. collapse_ws (strip line)) (splitlines text))"

text \<open>
  The document under construction is its list of body paragraphs; \<open>add_paragraph\<close> appends.
  \<open>add_paragraph(text, style)\<close> makes one run of the text unless the text is empty.
\<close>

definition aptos_body :: string where
  "aptos_body = ''Aptos (Body)''"

definition new_run :: "ustring \<Rightarrow> run" where
  "new_run text = \<lparr> run_text = text, run_bold = None, run_italic = None,
      run_underline = None, run_font_name = None, run_font_size = None \<rparr>"

definition new_paragraph :: "ustring \<Rightarrow> string \<Rightarrow> para" where
  "new_paragraph text style = \<lparr> para_style = style,
      para_runs = (if text = [] then [] else [new_run text]),
      left_indent = None, first_line_indent = None \<rparr>"

definition set_font_aptos_12 :: "run \<Rightarrow> run" where
  "set_font_aptos_12 r = r\<lparr> run_font_name := Some aptos_body, run_font_size := Some (Pt 12) \<rparr>"

definition bold_line_paragraph :: "ustring \<Rightarrow> para" where
  "bold_line_paragraph text = \<lparr> para_style = ''Normal'',
      para_runs = [set_font_aptos_12 ((new_run text)\<lparr> run_bold := Some True \<rparr>)],
      left_indent = None, first_line_indent = None \<rparr>"

definition add_bold_line :: "para list \<Rightarrow> ustring \<Rightarrow> para list" where
  "add_bold_line doc text = doc @ [bold_line_paragraph text]"

definition bullet_style_name :: "nat \<Rightarrow> string" where
  "bullet_style_name level =
     (if level = 0 then ''List Bullet''
      else if level = 1 then ''List Bullet 2'' else ''List Bullet 3'')"

definition bullet_paragraph :: "ustring \<Rightarrow> nat \<Rightarrow> para" where
  "bullet_paragraph text level =
     (let level = max 0 (min level 2);
          p = new_paragraph text (bullet_style_name level)
      in p\<lparr> para_runs := map set_font_aptos_12 (para_runs p) \<rparr>)"

definition add_bullet :: "para list \<Rightarrow> ustring \<Rightarrow> nat \<Rightarrow> para list" where
  "add_bullet doc text level = doc @ [bullet_paragraph text level]"

definition blank_paragraph :: para where
  "blank_paragraph = new_paragraph [] ''Normal''"

text \<open>
  The variables of the loop over a page's lines: the document, the open bullet
  (\<open>current_bullet\<close>, \<open>None\<close> when there is none), its level and the cursor into the page's
  list of levels. \<open>if current_bullet:\<close> holds for a string that is not empty.
\<close>

record asm_state =
  doc :: "para list"
  current_bullet :: "ustring option"
  current_level :: nat
  bullet_level_idx :: nat

definition truthy :: "ustring option \<Rightarrow> bool" where
  "truthy s = (case s of None \<Rightarrow> False | Some t \<Rightarrow> t \<noteq> [])"

definition flush_bullet :: "asm_state \<Rightarrow> asm_state" where
  "flush_bullet st =
     (case current_bullet st of
        None \<Rightarrow> st
      | Some b \<Rightarrow>
          if b = [] then st
          else st\<lparr> doc := add_bullet (doc st) (strip b) (current_level st),
                   current_bullet := None, current_level := 0 \<rparr>)"

definition process_line ::
  "ucd \<Rightarrow> bool \<Rightarrow> ustring option \<Rightarrow> nat list \<Rightarrow> asm_state \<Rightarrow> ustring \<Rightarrow> asm_state" where
  "process_line tbl force_all_lines_bullets title bullet_levels st line =
     (if truthy title \<and> Some line = title then st
      else
        (case bullet_text line of
           Some bt \<Rightarrow>
             (let st1 = flush_bullet st;
                  st2 = (if bullet_level_idx st1 < length bullet_levels
                         then st1\<lparr> current_level := bullet_levels ! bullet_level_idx st1,
                                   bullet_level_idx := bullet_level_idx st1 + 1 \<rparr>
                         else st1\<lparr> current_level := 0 \<rparr>)
              in st2\<lparr> current_bullet := Some bt \<rparr>)
         | None \<Rightarrow>
             if looks_like_heading tbl line then
               (let st1 = flush_bullet st in st1\<lparr> doc := add_bold_line (doc st1) line \<rparr>)
             else if force_all_lines_bullets then
               (flush_bullet st)\<lparr> current_level := 0, current_bullet := Some line \<rparr>
             else if truthy (current_bullet st) then
               st\<lparr> current_bullet := Some (the (current_bullet st) @ [32] @ line) \<rparr>
             else st))"

definition choose_title :: "ucd \<Rightarrow> ustring list \<Rightarrow> ustring option" where
  "choose_title tbl lines =
     find (\<lambda>line. bullet_text line = None \<and> (looks_like_heading tbl line \<or> length line \<le> 60)) lines"

definition title_skips_page :: "ucd \<Rightarrow> ustring option \<Rightarrow> bool" where
  "title_skips_page tbl title =
     (truthy title \<and>
      lower_str tbl (strip (the title)) \<in> set [ustr ''outline'', ustr ''summary''])"

definition page_skipped :: "ucd \<Rightarrow> ustring list \<Rightarrow> bool" where
  "page_skipped tbl lines = title_skips_page tbl (choose_title tbl lines)"

definition process_lines ::
  "ucd \<Rightarrow> bool \<Rightarrow> ustring option \<Rightarrow> nat list \<Rightarrow> asm_state \<Rightarrow> ustring list \<Rightarrow> asm_state" where
  "process_lines tbl force_all_lines_bullets title bullet_levels st lines =
     foldl (process_line tbl force_all_lines_bullets title bullet_levels) st lines"

text \<open>
  One iteration of the loop over the pages, from the page's normalized lines and the
  offsets of its bullet glyphs. The two \<open>continue\<close> statements leave the document as it is.
\<close>

definition convert_page ::
  "ucd \<Rightarrow> float_ops \<Rightarrow> bool \<Rightarrow> ustring list \<Rightarrow> rat list \<Rightarrow> para list \<Rightarrow> para list" where
  "convert_page tbl fp force_all_lines_bullets lines bullet_xs d =
     (if lines = [] then d
      else
        (let bullet_levels = levels_for_bullets_on_page fp bullet_xs;
             title = choose_title tbl lines
         in if title_skips_page tbl title then d
            else
              (let d1 = (if truthy title then add_bold_line d (the title) else d);
                   st0 = \<lparr> doc = d1, current_bullet = None, current_level = 0,
                           bullet_level_idx = 0 \<rparr>;
                   st = process_lines tbl force_all_lines_bullets title bullet_levels st0 lines;
                   st' = flush_bullet st
               in doc st' @ [blank_paragraph])))"

text \<open>
  The variables as the loop over the page's lines leaves them, before the last flush, for
  a page that is neither empty nor skipped.
\<close>

definition page_state ::
  "ucd \<Rightarrow> float_ops \<Rightarrow> bool \<Rightarrow> ustring list \<Rightarrow> rat list \<Rightarrow> para list \<Rightarrow> asm_state" where
  "page_state tbl fp force_all_lines_bullets lines bullet_xs d =
     (let bullet_levels = levels_for_bullets_on_page fp bullet_xs;
          title = choose_title tbl lines;
          d1 = (if truthy title then add_bold_line d (the title) else d);
          st0 = \<lparr> doc = d1, current_bullet = None, current_level = 0, bullet_level_idx = 0 \<rparr>
      in process_lines tbl force_all_lines_bullets title bullet_levels st0 lines)"

definition convert_raw_page ::
  "ucd \<Rightarrow> float_ops \<Rightarrow> bool \<Rightarrow> ustring \<times> rat list \<Rightarrow> para list \<Rightarrow> para list" where
  "convert_raw_page tbl fp force_all_lines_bullets page d =
     convert_page tbl fp force_all_lines_bullets (normalize_lines tbl (fst page)) (snd page) d"

definition assemble_pages ::
  "ucd \<Rightarrow> float_ops \<Rightarrow> bool \<Rightarrow> (ustring \<times> rat list) list \<Rightarrow> para list" where
  "assemble_pages tbl fp force_all_lines_bullets pages =
     foldl (\<lambda>d page. convert_raw_page tbl fp force_all_lines_bullets page d) [] pages"

section \<open>Structural postprocessor (convert_pdf_to_docx.py)\<close>

fun all_nonempty_runs_bold :: "bool \<Rightarrow> run list \<Rightarrow> bool" where
  "all_nonempty_runs_bold any_nonempty_run [] = any_nonempty_run"
| "all_nonempty_runs_bold any_nonempty_run (r # rs) =
     (if strip (run_text r) \<noteq> []
      then (if run_bold r \<noteq> Some True then False else all_nonempty_runs_bold True rs)
      else all_nonempty_runs_bold any_nonempty_run rs)"

definition is_heading :: "para \<Rightarrow> bool" where
  "is_heading p =
     (if strip (para_text p) = [] then False
      else if startswith (para_style p) ''List'' then False
      else all_nonempty_runs_bold False (para_runs p))"

definition is_bullet :: "para \<Rightarrow> bool" where
  "is_bullet p = startswith (para_style p) ''List''"

definition bullet_level_from_style_name :: "string \<Rightarrow> nat" where
  "bullet_level_from_style_name name =
     (if name = ''List Bullet'' then 0
      else if name = ''List Bullet 2'' then 1
      else if name = ''List Bullet 3'' then 2
      else 0)"

definition HANG :: int where "HANG = Pt 18"
definition STEP :: int where "STEP = Pt 18"
definition BASE_LEFT :: int where "BASE_LEFT = Pt 18"

definition apply_level_indent :: "para \<Rightarrow> nat \<Rightarrow> para" where
  "apply_level_indent p level =
     (let level = max 0 (min level 2)
      in p\<lparr> left_indent := Some (Pt (pt_of BASE_LEFT + pt_of STEP * of_nat level)),
             first_line_indent := Some (Pt (- pt_of HANG)) \<rparr>)"

definition enforce_aptos_12 :: "para \<Rightarrow> para" where
  "enforce_aptos_12 p = p\<lparr> para_runs := map set_font_aptos_12 (para_runs p) \<rparr>"

definition keep_bold :: "run \<Rightarrow> run" where
  "keep_bold r = (if strip (run_text r) \<noteq> [] then r\<lparr> run_bold := Some True \<rparr> else r)"

definition bold_nonempty_runs :: "para \<Rightarrow> para" where
  "bold_nonempty_runs p = p\<lparr> para_runs := map keep_bold (para_runs p) \<rparr>"

text \<open>
  Pass 1. The inner scan from paragraph \<open>i + 1\<close> stops at the first heading (no bullet
  found) or at the first bullet. The paragraphs to delete are removed from the body as
  objects; an object is identified by its position in the list read at the start.
\<close>

fun bullet_before_heading :: "para list \<Rightarrow> bool" where
  "bullet_before_heading [] = False"
| "bullet_before_heading (nxt # rest) =
     (if is_heading nxt then False
      else if is_bullet nxt then True
      else bullet_before_heading rest)"

definition to_delete_idxs :: "para list \<Rightarrow> nat list" where
  "to_delete_idxs paras =
     filter (\<lambda>i. is_heading (paras ! i) \<and> \<not> bullet_before_heading (drop (i + 1) paras))
       [0..<length paras]"

definition remove_element :: "(nat \<times> para) list \<Rightarrow> nat \<Rightarrow> (nat \<times> para) list" where
  "remove_element body i = filter (\<lambda>e. fst e \<noteq> i) body"

definition remove_orphan_headings :: "para list \<Rightarrow> para list" where
  "remove_orphan_headings paras =
     map snd (foldl remove_element (enumerate 0 paras) (rev (to_delete_idxs paras)))"

text \<open>
  Pass 2, the loop over the remaining paragraphs with the flag \<open>in_heading_block\<close>. A
  branch that restyles the paragraph looks the style \<open>List Bullet\<close> up first; an exception
  ends the function before the document is saved, so no paragraph is returned.
\<close>

definition emit :: "para \<Rightarrow> error + para list \<Rightarrow> error + para list" where
  "emit p r = (case r of Inl e \<Rightarrow> Inl e | Inr ps \<Rightarrow> Inr (p # ps))"

fun restyle_loop :: "string list \<Rightarrow> bool \<Rightarrow> para list \<Rightarrow> error + para list" where
  "restyle_loop styles in_heading_block [] = Inr []"
| "restyle_loop styles in_heading_block (p # ps) =
     (if is_heading p then
        (case styles_lookup styles ''List Bullet'' of
           Inl e \<Rightarrow> Inl e
         | Inr sty \<Rightarrow>
             emit (enforce_aptos_12 (bold_nonempty_runs
                     (apply_level_indent (p\<lparr> para_style := sty \<rparr>) 0)))
               (restyle_loop styles True ps))
      else if in_heading_block \<and> is_bullet p then
        (let old_level = bullet_level_from_style_name (para_style p);
             new_level = min (old_level + 1) 2
         in case styles_lookup styles ''List Bullet'' of
              Inl e \<Rightarrow> Inl e
            | Inr sty \<Rightarrow>
                emit (enforce_aptos_12 (apply_level_indent (p\<lparr> para_style := sty \<rparr>) new_level))
                  (restyle_loop styles in_heading_block ps))
      else
        (let in_block = (if strip (para_text p) = [] then False
                         else if \<not> is_bullet p then False
                         else in_heading_block)
         in if is_bullet p then
              (let lvl = bullet_level_from_style_name (para_style p)
               in case styles_lookup styles ''List Bullet'' of
                    Inl e \<Rightarrow> Inl e
                  | Inr sty \<Rightarrow>
                      emit (enforce_aptos_12 (apply_level_indent (p\<lparr> para_style := sty \<rparr>) lvl))
                        (restyle_loop styles in_block ps))
            else emit (enforce_aptos_12 p) (restyle_loop styles in_block ps)))"

definition postprocess_formatting :: "string list \<Rightarrow> para list \<Rightarrow> error + para list" where
  "postprocess_formatting styles paras = restyle_loop styles False (remove_orphan_headings paras)"

text \<open>
  \<open>set_aptos_12\<close> looks the style \<open>Normal\<close> up in the document and sets the font of that
  style; only the lookup, which may raise, is modelled. The converter's document is built
  on the default template.
\<close>

definition set_aptos_12 :: "string list \<Rightarrow> error + unit" where
  "set_aptos_12 styles =
     (case styles_lookup styles ''Normal'' of Inl e \<Rightarrow> Inl e | Inr sty \<Rightarrow> Inr ())"

definition convert ::
  "ucd \<Rightarrow> float_ops \<Rightarrow> bool \<Rightarrow> (ustring \<times> rat list) list \<Rightarrow> error + para list" where
  "convert tbl fp force_all_lines_bullets pages =
     (case set_aptos_12 default_template_styles of
        Inl e \<Rightarrow> Inl e
      | Inr u \<Rightarrow>
          postprocess_formatting default_template_styles
            (assemble_pages tbl fp force_all_lines_bullets pages))"

text \<open>
  What a second run does to a paragraph of the first run's output: a list paragraph is
  indented again, at the level its style name gives, which is 0 for \<open>List Bullet\<close>.
\<close>

definition reset_to_level_0 :: "para \<Rightarrow> para" where
  "reset_to_level_0 p = (if is_bullet p then apply_level_indent p 0 else p)"

text \<open>
  What the first run leaves behind: no paragraph is a heading any more, every run has the
  canonical font, and a list paragraph has the style \<open>List Bullet\<close> and the hanging indent.
\<close>

definition canonical :: "para \<Rightarrow> bool" where
  "canonical p =
     (\<not> is_heading p \<and> enforce_aptos_12 p = p \<and>
      (is_bullet p \<longrightarrow>
         para_style p = ''List Bullet'' \<and> first_line_indent p = Some (Pt (- pt_of HANG))))"

text \<open>A document may only grow by paragraphs other than the blank separator.\<close>

definition extends_nonblank :: "para list \<Rightarrow> para list \<Rightarrow> bool" where
  "extends_nonblank d d' = (\<exists>body. d' = d @ body \<and> blank_paragraph \<notin> set body)"

section \<open>Template remapper (word_reindent.py)\<close>

record numbering =
  num_id :: int
  ilvl :: int

record out_para =
  out_style :: "string option"
  out_numPr :: "numbering option"
  out_runs :: "run list"
  out_left_indent :: "int option"
  out_first_line_indent :: "int option"
  out_right_indent :: "int option"
  out_space_before :: "int option"
  out_space_after :: "int option"
  out_line_spacing :: "int option"

definition empty_out_paragraph :: out_para where
  "empty_out_paragraph = \<lparr> out_style = None, out_numPr = None, out_runs = [],
      out_left_indent = None, out_first_line_indent = None, out_right_indent = None,
      out_space_before = None, out_space_after = None, out_line_spacing = None \<rparr>"

definition set_paragraph_numbering :: "out_para \<Rightarrow> int \<Rightarrow> int \<Rightarrow> out_para" where
  "set_paragraph_numbering p n lvl =
     (let lvl = max 0 (min lvl 8)
      in p\<lparr> out_numPr := Some \<lparr> num_id = n, ilvl = lvl \<rparr> \<rparr>)"

definition clear_direct_paragraph_formatting :: "out_para \<Rightarrow> out_para" where
  "clear_direct_paragraph_formatting p =
     p\<lparr> out_left_indent := None, out_first_line_indent := None, out_right_indent := None,
        out_space_before := None, out_space_after := None, out_line_spacing := None \<rparr>"

definition copied_run :: "ustring \<Rightarrow> bool option \<Rightarrow> bool option \<Rightarrow> run" where
  "copied_run text italic underline = \<lparr> run_text = text, run_bold = Some False,
      run_italic = italic, run_underline = underline,
      run_font_name = Some aptos_body, run_font_size = Some (Pt 12) \<rparr>"

definition copy_runs_force_not_bold :: "para \<Rightarrow> out_para \<Rightarrow> out_para" where
  "copy_runs_force_not_bold src_p dst_p =
     (if para_runs src_p = [] then
        (if para_text src_p \<noteq> []
         then dst_p\<lparr> out_runs := out_runs dst_p @ [copied_run (para_text src_p) None None] \<rparr>
         else dst_p)
      else dst_p\<lparr> out_runs := out_runs dst_p @
             map (\<lambda>r0. copied_run (run_text r0) (run_italic r0) (run_underline r0))
               (filter (\<lambda>r0. run_text r0 \<noteq> []) (para_runs src_p)) \<rparr>)"

definition is_list_like :: "para \<Rightarrow> bool" where
  "is_list_like src_p =
     (if startswith (para_style src_p) ''List'' then True
      else (case first_line_indent src_p of
              None \<Rightarrow> False
            | Some fl \<Rightarrow>
                pt_of fl < 0 \<and>
                (case left_indent src_p of None \<Rightarrow> False | Some li \<Rightarrow> 0 < pt_of li)))"

definition infer_level_from_indent :: "para \<Rightarrow> int" where
  "infer_level_from_indent src_p =
     (case left_indent src_p of
        None \<Rightarrow> 0
      | Some li \<Rightarrow>
          (let left = pt_of li; lvl = py_round ((left - 18) / 18)
           in max 0 (min lvl 2)))"

definition TEMPLATE_NUM_ID :: int where "TEMPLATE_NUM_ID = 1"
definition TEMPLATE_LIST_STYLE :: string where "TEMPLATE_LIST_STYLE = ''List Paragraph''"

definition force_runs_plain :: "out_para \<Rightarrow> out_para" where
  "force_runs_plain dp =
     dp\<lparr> out_runs := map (\<lambda>r. r\<lparr> run_font_name := Some aptos_body,
                                   run_font_size := Some (Pt 12), run_bold := Some False \<rparr>)
                       (out_runs dp) \<rparr>"

text \<open>
  The body of the loop over the source paragraphs; \<open>None\<close> is the \<open>continue\<close> of an empty
  paragraph. \<open>template_styles\<close> are the names of the styles the template defines.
\<close>

definition remap_paragraph :: "string list \<Rightarrow> para \<Rightarrow> out_para option" where
  "remap_paragraph template_styles sp =
     (if strip (para_text sp) = [] then None
      else if is_list_like sp then
        (let lvl = infer_level_from_indent sp;
             dp = empty_out_paragraph;
             dp = (if TEMPLATE_LIST_STYLE \<in> set template_styles
                   then dp\<lparr> out_style := Some TEMPLATE_LIST_STYLE \<rparr> else dp);
             dp = set_paragraph_numbering dp TEMPLATE_NUM_ID lvl;
             dp = clear_direct_paragraph_formatting dp;
             dp = copy_runs_force_not_bold sp dp
         in Some (force_runs_plain dp))
      else
        (let dp = empty_out_paragraph;
             dp = clear_direct_paragraph_formatting dp;
             dp = copy_runs_force_not_bold sp dp
         in Some (force_runs_plain dp)))"

text \<open>
  The whole function: the output document starts from the template, \<open>set_aptos_12\<close> runs
  on it before the loop, and an exception there leaves no output document.
\<close>

definition apply_template_bullets :: "string list \<Rightarrow> para list \<Rightarrow> error + out_para list" where
  "apply_template_bullets template_styles src =
     (case set_aptos_12 template_styles of
        Inl e \<Rightarrow> Inl e
      | Inr u \<Rightarrow> Inr (List.map_filter (remap_paragraph template_styles) src))"

section \<open>Results: line classifier\<close>

lemmas text_eval = strip_def lstrip_def rstrip_def py_isspace_def BULLET_RE_match_def
  BULLET_CHARS_def endswith_colon_def findall_words_def is_word_char_def isupper_str_def
  title_like_def ustr_def bullet_text_def lower_str_def startswith_def

lemmas latin1_eval = latin1_ucd_def latin1_lower_def latin1_upper_def latin1_tolower_def
  latin1_digit_def

lemma looks_like_heading_code_rule:
  "looks_like_heading tbl line = heading_rule_code tbl (strip line)"
  by (auto simp: looks_like_heading_def heading_rule_code_def Let_def endswith_colon_def
      findall_words_def)

lemma strip_replicate_space: "strip (replicate n 32 @ s) = strip s"
  by (induction n) (simp_all add: strip_def lstrip_def py_isspace_def)

text \<open>
  C5, as stated, fails: the line of two capital E with acute accent (U+00C9) is no bullet
  marker, has length 2 and is fully upper-case, so the rule of the specification makes it a
  heading; the code finds no word of ASCII letters in it and answers no. And a line is
  classified by its trimmed text, whatever its own length: 81 spaces before \<open>A:\<close> make a
  line of 83 code points that the code takes for a heading.
\<close>

theorem heading_rule_spec_counterexample:
  "heading_rule_spec latin1_ucd [201, 201] \<and> \<not> looks_like_heading latin1_ucd [201, 201]
   \<and> \<not> heading_rule_spec latin1_ucd (replicate 81 32 @ ustr ''A:'')
   \<and> looks_like_heading latin1_ucd (replicate 81 32 @ ustr ''A:'')"
proof -
  have a: "heading_rule_spec latin1_ucd [201, 201] \<and> \<not> looks_like_heading latin1_ucd [201, 201]"
    by (simp add: heading_rule_spec_def looks_like_heading_def text_eval latin1_eval)
  have b: "\<not> heading_rule_spec latin1_ucd (replicate 81 32 @ ustr ''A:'')"
    by (simp add: heading_rule_spec_def ustr_def)
  have c: "looks_like_heading latin1_ucd (replicate 81 32 @ ustr ''A:'')"
    by (simp add: looks_like_heading_code_rule strip_replicate_space)
       (simp add: heading_rule_code_def text_eval)
  from a b c show ?thesis by blast
qed

text \<open>
  C5, amended: the classifier answers yes exactly when the trimmed line is not a bullet
  marker match, is at most 80 long and either ends with a colon, or has at least one word of
  ASCII letters and is fully upper-case and at most 60 long, or has at least 70% of its
  words capitalized and is at most 70 long. A line whose trimmed text is longer than 80 is
  never a heading.
\<close>

theorem looks_like_heading_rule:
  "looks_like_heading tbl line = heading_rule_code tbl (strip line)
   \<and> (80 < length (strip line) \<longrightarrow> \<not> looks_like_heading tbl line)"
  by (auto simp: looks_like_heading_def heading_rule_code_def Let_def endswith_colon_def
      findall_words_def)

theorem looks_like_heading_rule_witness:
  "80 < length (strip (replicate 81 65)) \<and> \<not> looks_like_heading latin1_ucd (replicate 81 65)
   \<and> looks_like_heading latin1_ucd (ustr ''Key Ideas'')
   \<and> heading_rule_code latin1_ucd (strip (ustr ''Key Ideas''))"
proof -
  have a: "\<not> py_isspace 65" by (simp add: py_isspace_def)
  have "strip (replicate 81 65) = replicate 81 65"
    using a by (simp add: strip_def lstrip_def rstrip_def dropWhile_eq_self_iff hd_replicate
        hd_rev last_replicate)
  then have h: "80 < length (strip (replicate 81 65))" by simp
  have k: "heading_rule_code latin1_ucd (strip (ustr ''Key Ideas''))"
    by (simp add: heading_rule_code_def text_eval latin1_eval)
  from looks_like_heading_rule[of latin1_ucd "replicate 81 65"] h
  have n: "\<not> looks_like_heading latin1_ucd (replicate 81 65)" by blast
  from looks_like_heading_rule[of latin1_ucd "ustr ''Key Ideas''"] k
  have y: "looks_like_heading latin1_ucd (ustr ''Key Ideas'')" by blast
  from h n y k show ?thesis by blast
qed

section \<open>Results: double arithmetic\<close>

lemma py_round_of_int [simp]: "py_round (of_int m) = m"
  by (simp add: py_round_def)

lemma binary_exponent_of_nat:
  assumes "0 < n"
  shows "binary_exponent (of_nat n) = int (floorlog 2 n) - 1"
    and "0 \<le> binary_exponent (of_nat n)"
proof -
  have q: "quotient_of (of_nat n :: rat) = (int n, 1)"
    using quotient_of_int[of "int n", unfolded Rat.of_int_def] by (simp only: of_int_of_nat_eq)
  have f1: "floorlog 2 (Suc 0) = 1"
    by (simp add: floorlog_def)
  from assms have b: "2 ^ (floorlog 2 n - 1) \<le> n" "0 < floorlog 2 n"
    using floorlog_bounds[of n 2] by (auto simp: floorlog_eq_zero_iff intro: Nat.gr0I)
  then have le: "(2::rat) ^ (floorlog 2 n - 1) \<le> of_nat n"
    by (metis of_nat_le_iff of_nat_numeral of_nat_power)
  have ex: "int (floorlog 2 n) - 1 = int (floorlog 2 n - 1)" using b(2) by linarith
  have "power_int (2::rat) (int (floorlog 2 n) - 1) = 2 ^ (floorlog 2 n - 1)"
    unfolding ex by (rule power_int_of_nat)
  with le have "power_int (2::rat) (int (floorlog 2 n) - 1) \<le> of_nat n"
    by (simp only:)
  then show "binary_exponent (of_nat n) = int (floorlog 2 n) - 1"
    by (simp add: binary_exponent_def q f1 Let_def)
  then show "0 \<le> binary_exponent (of_nat n)" using b(2) by simp
qed

text \<open>Every integer below \<open>2 ^ 53\<close> in absolute value is a double: rounding leaves it alone.\<close>

lemma round_to_double_of_nat:
  assumes "n < 2 ^ 53"
  shows "round_to_double (of_nat n) = of_nat n"
    and "round_to_double (- of_nat n) = - of_nat n"
proof -
  have "round_to_double (of_nat n) = of_nat n \<and> round_to_double (- of_nat n) = - of_nat n"
  proof (cases "n = 0")
    case True
    then show ?thesis by (simp add: round_to_double_def)
  next
    case False
    then have pos: "0 < n" by simp
    let ?e = "binary_exponent (of_nat n)"
    have e: "?e = int (floorlog 2 n) - 1" "0 \<le> ?e"
      using binary_exponent_of_nat[OF pos] by auto
    have "floorlog 2 n \<le> 53" using assms by (simp add: floorlog_le_iff)
    then have le: "?e \<le> 52" using e by simp
    define k where "k = nat (52 - ?e)"
    have ulp: "power_int (2::rat) (?e - 52) = inverse (2 ^ k)"
      using le by (simp add: k_def power_int_def power_one_over inverse_eq_divide)
    have m: "max ?e (- 1022) = ?e" using e(2) by simp
    have qpos: "of_nat n / inverse ((2::rat) ^ k) = of_int (int n * 2 ^ k)"
      by (simp add: field_simps)
    have qneg: "- of_nat n / inverse ((2::rat) ^ k) = of_int (- (int n * 2 ^ k))"
      by (simp add: field_simps)
    have nz: "(of_nat n :: rat) \<noteq> 0" using pos by simp
    have "round_to_double (of_nat n)
        = of_int (py_round (of_nat n / inverse (2 ^ k))) * inverse (2 ^ k)"
      using nz by (simp add: round_to_double_def m ulp Let_def)
    also have "\<dots> = of_int (py_round (of_int (int n * 2 ^ k))) * inverse (2 ^ k)"
      by (simp only: qpos)
    also have "\<dots> = of_int (int n * 2 ^ k) * inverse (2 ^ k)"
      by (simp only: py_round_of_int)
    also have "\<dots> = of_nat n" by (simp add: field_simps)
    finally have a: "round_to_double (of_nat n) = of_nat n" .
    have "round_to_double (- of_nat n)
        = of_int (py_round (- of_nat n / inverse (2 ^ k))) * inverse (2 ^ k)"
      using nz by (simp add: round_to_double_def m ulp Let_def)
    also have "\<dots> = of_int (py_round (of_int (- (int n * 2 ^ k)))) * inverse (2 ^ k)"
      by (simp only: qneg)
    also have "\<dots> = of_int (- (int n * 2 ^ k)) * inverse (2 ^ k)"
      by (simp only: py_round_of_int)
    also have "\<dots> = - of_nat n" by (simp add: field_simps)
    finally have b: "round_to_double (- of_nat n) = - of_nat n" .
    from a b show ?thesis by simp
  qed
  then show "round_to_double (of_nat n) = of_nat n"
    and "round_to_double (- of_nat n) = - of_nat n" by simp_all
qed

lemma round_to_double_numeral [simp]:
  "(numeral k :: nat) < 9007199254740992 \<Longrightarrow> round_to_double (numeral k) = numeral k"
  "(numeral k :: nat) < 9007199254740992 \<Longrightarrow> round_to_double (- numeral k) = - numeral k"
  using round_to_double_of_nat[of "numeral k"] by simp_all

lemma round_to_double_0 [simp]: "round_to_double 0 = 0"
  by (simp add: round_to_double_def)

lemma round_to_double_1 [simp]: "round_to_double 1 = 1" "round_to_double (- 1) = - 1"
  using round_to_double_of_nat[of 1] by simp_all

lemma power_int_2_less_imp: "power_int (2::rat) m < power_int 2 n \<Longrightarrow> m < n"
  using power_int_increasing[of n m "2::rat"] by (cases "m < n") auto

lemma floorlog_rat_bounds:
  assumes "0 < (a::int)"
  shows "power_int 2 (int (floorlog 2 (nat a)) - 1) \<le> (of_int a :: rat)
    \<and> (of_int a :: rat) < power_int 2 (int (floorlog 2 (nat a)))"
proof -
  let ?l = "floorlog 2 (nat a)"
  from assms have pos: "0 < nat a" by simp
  from floorlog_bounds[OF pos, of 2] have b: "2 ^ (?l - 1) \<le> nat a" "nat a < 2 ^ ?l" by simp_all
  have l: "0 < ?l" using pos by (simp add: floorlog_def)
  have "(of_nat (2 ^ (?l - 1)) :: rat) \<le> of_nat (nat a)" using b(1) by (simp only: of_nat_le_iff)
  then have lo: "(2::rat) ^ (?l - 1) \<le> of_int a" using assms by simp
  have "(of_nat (nat a) :: rat) < of_nat (2 ^ ?l)" using b(2) by (simp only: of_nat_less_iff)
  then have hi: "(of_int a :: rat) < 2 ^ ?l" using assms by simp
  have e: "int ?l - 1 = int (?l - 1)" using l by simp
  have "power_int (2::rat) (int ?l - 1) = 2 ^ (?l - 1)"
    unfolding e by (rule power_int_of_nat)
  moreover have "power_int (2::rat) (int ?l) = 2 ^ ?l" by (rule power_int_of_nat)
  ultimately show ?thesis using lo hi by simp
qed

text \<open>
  \<open>binary_exponent\<close> is the exponent of its argument, and so \<open>round_to_double\<close> rounds
  to 53 significant bits, on a multiple of the unit in the last place.
\<close>

lemma binary_exponent_eq:
  assumes "0 < q" and "power_int 2 e \<le> q" and "q < power_int 2 (e + 1)"
  shows "binary_exponent q = e"
proof -
  obtain a b where ab: "quotient_of q = (a, b)" by (cases "quotient_of q")
  have b: "0 < b" using quotient_of_denom_pos[OF ab] .
  have q: "q = of_int a / of_int b" using quotient_of_div[OF ab] .
  have a: "0 < a" using assms(1) b unfolding q by (simp add: zero_less_divide_iff)
  define la lb where "la = int (floorlog 2 (nat a))" and "lb = int (floorlog 2 (nat b))"
  note A = floorlog_rat_bounds[OF a, folded la_def]
  note B = floorlog_rat_bounds[OF b, folded lb_def]
  have p: "0 < power_int (2::rat) k" for k by simp
  have "q < power_int 2 la / power_int 2 (lb - 1)"
    unfolding q using A B a b p[of "lb - 1"]
    by (intro frac_less) simp_all
  then have hi: "q < power_int 2 (la - lb + 1)"
    by (simp add: power_int_diff[symmetric] algebra_simps)
  have "power_int 2 (la - 1) / power_int 2 lb < q"
    unfolding q using A B a b p[of "la - 1"]
    by (intro frac_less2) simp_all
  then have lo: "power_int 2 (la - lb - 1) < q"
    by (simp add: power_int_diff[symmetric] algebra_simps)
  have be: "binary_exponent q = (if power_int 2 (la - lb) \<le> q then la - lb else la - lb - 1)"
    by (simp add: binary_exponent_def ab la_def lb_def Let_def)
  show ?thesis
  proof (cases "power_int 2 (la - lb) \<le> q")
    case True
    from assms(2) hi have "power_int (2::rat) e < power_int 2 (la - lb + 1)" by simp
    then have 1: "e < la - lb + 1" by (rule power_int_2_less_imp)
    from True assms(3) have "power_int (2::rat) (la - lb) < power_int 2 (e + 1)" by simp
    then have 2: "la - lb < e + 1" by (rule power_int_2_less_imp)
    from 1 2 be True show ?thesis by simp
  next
    case False
    then have "power_int (2::rat) e < power_int 2 (la - lb)" using assms(2) by simp
    then have 1: "e < la - lb" by (rule power_int_2_less_imp)
    from lo assms(3) have "power_int (2::rat) (la - lb - 1) < power_int 2 (e + 1)" by simp
    then have 2: "la - lb - 1 < e + 1" by (rule power_int_2_less_imp)
    from 1 2 be False show ?thesis by simp
  qed
qed

lemma round_to_double_eq:
  assumes "power_int 2 e \<le> \<bar>q\<bar>" and "\<bar>q\<bar> < power_int 2 (e + 1)" and "- 1022 \<le> e"
  shows "round_to_double q = of_int (py_round (q / power_int 2 (e - 52))) * power_int 2 (e - 52)"
proof -
  have "0 < power_int (2::rat) e" by simp
  with assms(1) have pos: "0 < \<bar>q\<bar>" by linarith
  then have "q \<noteq> 0" by simp
  moreover have "binary_exponent \<bar>q\<bar> = e" using pos assms(1,2) by (rule binary_exponent_eq)
  ultimately show ?thesis using assms(3) by (simp add: round_to_double_def Let_def max_def)
qed

lemma floor_rat_numeral: "\<lfloor>numeral a / numeral b :: rat\<rfloor> = numeral a div numeral b"
  by (metis floor_divide_of_int_eq of_int_numeral)

lemmas double_eval = power_int_def power_one_over py_round_def Let_def floor_rat_numeral

section \<open>Results: coordinate level inference\<close>

lemmas cluster_eval = mean_def add_to_clusters_def greedy_clusters_def cluster_x_positions_def
  nearest_center_def levels_for_bullets_on_page_def level_by_cluster_spec_def double_ops_def

lemma foldl_add_chunk:
  "cs \<noteq> [] \<Longrightarrow>
   foldl (add_to_clusters fp tol) cs xs = butlast cs @ chunk fp tol (last cs) xs"
proof (induction xs arbitrary: cs)
  case Nil
  then show ?case by simp
next
  case (Cons x xs)
  then show ?case by (simp add: add_to_clusters_def butlast_append)
qed

lemma greedy_clusters_chunk:
  "sort xs = x0 # rest \<Longrightarrow> greedy_clusters fp xs tol = chunk fp tol [x0] rest"
  by (simp add: greedy_clusters_def foldl_add_chunk)

lemma concat_chunk: "concat (chunk fp tol cur xs) = cur @ xs"
  by (induction xs arbitrary: cur) auto

lemma chunk_nonempty: "cur \<noteq> [] \<Longrightarrow> c \<in> set (chunk fp tol cur xs) \<Longrightarrow> c \<noteq> []"
  by (induction xs arbitrary: cur) (auto split: if_splits)

lemma chunk_not_Nil: "chunk fp tol cur xs \<noteq> []"
  by (induction xs arbitrary: cur) auto

lemma hd_hd_chunk: "cur \<noteq> [] \<Longrightarrow> hd (hd (chunk fp tol cur xs)) = hd cur"
  by (induction xs arbitrary: cur) auto

lemma chained_snoc:
  "cur \<noteq> [] \<Longrightarrow> chained fp tol cur \<Longrightarrow> \<bar>fl_sub fp x (last cur)\<bar> \<le> tol
   \<Longrightarrow> chained fp tol (cur @ [x])"
proof (induction cur rule: chained.induct)
  case (1 fp tol)
  then show ?case by simp
next
  case (2 fp tol y)
  then show ?case by simp
next
  case (3 fp tol y z r)
  then show ?case by simp
qed

lemma chunk_chained:
  "cur \<noteq> [] \<Longrightarrow> chained fp tol cur \<Longrightarrow> c \<in> set (chunk fp tol cur xs) \<Longrightarrow> chained fp tol c"
proof (induction xs arbitrary: cur)
  case Nil
  then show ?case by simp
next
  case (Cons x xs)
  show ?case
  proof (cases "\<bar>fl_sub fp x (last cur)\<bar> \<le> tol")
    case True
    with Cons.prems have "chained fp tol (cur @ [x])" by (simp add: chained_snoc)
    with Cons.IH[of "cur @ [x]"] Cons.prems True show ?thesis by simp
  next
    case False
    with Cons.IH[of "[x]"] Cons.prems show ?thesis by auto
  qed
qed

lemma separated_Cons:
  "separated fp tol (c # cs) =
     ((cs = [] \<or> tol < \<bar>fl_sub fp (hd (hd cs)) (last c)\<bar>) \<and> separated fp tol cs)"
  by (cases cs) auto

lemma separated_chunk: "cur \<noteq> [] \<Longrightarrow> separated fp tol (chunk fp tol cur xs)"
proof (induction xs arbitrary: cur)
  case Nil
  then show ?case by simp
next
  case (Cons x xs)
  show ?case
  proof (cases "\<bar>fl_sub fp x (last cur)\<bar> \<le> tol")
    case True
    with Cons.IH[of "cur @ [x]"] show ?thesis by simp
  next
    case False
    have "separated fp tol (chunk fp tol [x] xs)" using Cons.IH[of "[x]"] by simp
    moreover have "hd (hd (chunk fp tol [x] xs)) = x" by (simp add: hd_hd_chunk)
    ultimately show ?thesis using False
      by (simp add: separated_Cons chunk_not_Nil)
  qed
qed

lemma chained_nth:
  "chained fp tol c \<Longrightarrow> Suc m < length c \<Longrightarrow> \<bar>fl_sub fp (c ! Suc m) (c ! m)\<bar> \<le> tol"
proof (induction c arbitrary: m rule: chained.induct)
  case (1 fp tol)
  then show ?case by simp
next
  case (2 fp tol x)
  then show ?case by simp
next
  case (3 fp tol x y r)
  then show ?case by (cases m) auto
qed

lemma separated_nth:
  "separated fp tol cl \<Longrightarrow> Suc m < length cl
   \<Longrightarrow> tol < \<bar>fl_sub fp (hd (cl ! Suc m)) (last (cl ! m))\<bar>"
proof (induction cl arbitrary: m rule: separated.induct)
  case (1 fp tol)
  then show ?case by simp
next
  case (2 fp tol c)
  then show ?case by simp
next
  case (3 fp tol c d r)
  then show ?case by (cases m) auto
qed

subsection \<open>The first index of least key\<close>

lemma argmin_key_mem: "argmin_key key b is \<in> set (b # is)"
  by (induction "is" arbitrary: b) (auto split: if_splits)

lemma argmin_key_le: "j \<in> set (b # is) \<Longrightarrow> key (argmin_key key b is) \<le> key j"
proof (induction "is" arbitrary: b j)
  case Nil
  then show ?case by simp
next
  case (Cons i "is")
  show ?case
  proof (cases "key i < key b")
    case True
    have "key (argmin_key key i is) \<le> key i" using Cons.IH[of i i] by simp
    with True Cons.IH[of j i] Cons.prems show ?thesis by auto
  next
    case False
    have "key (argmin_key key b is) \<le> key b" using Cons.IH[of b b] by simp
    with False Cons.IH[of j b] Cons.prems show ?thesis by auto
  qed
qed

lemma argmin_key_first:
  "sorted_wrt (<) (b # is) \<Longrightarrow> j \<in> set (b # is) \<Longrightarrow> j < argmin_key key b is
   \<Longrightarrow> key (argmin_key key b is) < key j"
proof (induction "is" arbitrary: b j)
  case Nil
  then show ?case by simp
next
  case (Cons i "is")
  show ?case
  proof (cases "key i < key b")
    case True
    then have r: "argmin_key key b (i # is) = argmin_key key i is" by simp
    have sw: "sorted_wrt (<) (i # is)" using Cons.prems(1) by simp
    show ?thesis
    proof (cases "j = b")
      case True
      have "key (argmin_key key i is) \<le> key i" using argmin_key_le[of i i "is" key] by simp
      with \<open>key i < key b\<close> True r show ?thesis by simp
    next
      case False
      with Cons.prems(2) have "j \<in> set (i # is)" by simp
      with Cons.IH[OF sw this] Cons.prems(3) r show ?thesis by simp
    qed
  next
    case False
    then have r: "argmin_key key b (i # is) = argmin_key key b is" by simp
    have sw: "sorted_wrt (<) (b # is)" using Cons.prems(1) by auto
    have bi: "b < i" using Cons.prems(1) by simp
    show ?thesis
    proof (cases "j = i")
      case True
      with Cons.prems(3) r bi have "b < argmin_key key b is" by simp
      with Cons.IH[OF sw, of b] have "key (argmin_key key b is) < key b" by simp
      with False True r show ?thesis by simp
    next
      case False
      with Cons.prems(2) have "j \<in> set (b # is)" by auto
      with Cons.IH[OF sw this] Cons.prems(3) r show ?thesis by simp
    qed
  qed
qed

lemma nearest_center_bound:
  "centers \<noteq> [] \<Longrightarrow> nearest_center fp centers x < length centers"
  using argmin_key_mem[of "\<lambda>i. \<bar>fl_sub fp x (centers ! i)\<bar>" 0 "[1..<length centers]"]
  by (auto simp: nearest_center_def)

lemma nearest_center_le:
  "j < length centers \<Longrightarrow>
   \<bar>fl_sub fp x (centers ! nearest_center fp centers x)\<bar> \<le> \<bar>fl_sub fp x (centers ! j)\<bar>"
  using argmin_key_le[of j 0 "[1..<length centers]" "\<lambda>i. \<bar>fl_sub fp x (centers ! i)\<bar>"]
  by (cases "j = 0") (auto simp: nearest_center_def)

lemma nearest_center_first:
  assumes "j < nearest_center fp centers x"
  shows "\<bar>fl_sub fp x (centers ! nearest_center fp centers x)\<bar> < \<bar>fl_sub fp x (centers ! j)\<bar>"
proof -
  let ?key = "\<lambda>i. \<bar>fl_sub fp x (centers ! i)\<bar>"
  let ?is = "[1..<length centers]"
  have mem: "argmin_key ?key 0 ?is \<in> set (0 # ?is)" by (rule argmin_key_mem)
  have sw: "sorted_wrt (<) (0 # ?is)" by (simp add: sorted_wrt_upt)
  from assms mem have "j \<in> set (0 # ?is)"
    by (cases "j = 0") (auto simp: nearest_center_def)
  from argmin_key_first[OF sw this] assms show ?thesis
    by (simp add: nearest_center_def)
qed

subsection \<open>The clusters and their centres\<close>

lemma greedy_clusters_structure:
  assumes "xs \<noteq> []"
  shows "greedy_clusters fp xs tol \<noteq> []"
    and "\<forall>c\<in>set (greedy_clusters fp xs tol). c \<noteq> []"
    and "concat (greedy_clusters fp xs tol) = sort xs"
    and "separated fp tol (greedy_clusters fp xs tol)"
    and "\<forall>c\<in>set (greedy_clusters fp xs tol). chained fp tol c"
proof -
  from assms have "sort xs \<noteq> []" by (metis length_sort length_0_conv)
  then obtain x0 rest where s: "sort xs = x0 # rest" by (cases "sort xs") auto
  then have g: "greedy_clusters fp xs tol = chunk fp tol [x0] rest" by (rule greedy_clusters_chunk)
  show "greedy_clusters fp xs tol \<noteq> []" by (simp add: g chunk_not_Nil)
  show "\<forall>c\<in>set (greedy_clusters fp xs tol). c \<noteq> []"
    using chunk_nonempty[of "[x0]" _ fp tol rest] by (auto simp: g)
  show "concat (greedy_clusters fp xs tol) = sort xs" by (simp add: g s concat_chunk)
  show "separated fp tol (greedy_clusters fp xs tol)"
    unfolding g by (rule separated_chunk) simp
  show "\<forall>c\<in>set (greedy_clusters fp xs tol). chained fp tol c"
    using chunk_chained[of "[x0]" fp tol _ rest] by (auto simp: g)
qed

lemma cluster_x_positions_not_Nil: "xs \<noteq> [] \<Longrightarrow> cluster_x_positions fp xs tol \<noteq> []"
  using greedy_clusters_structure(1)[of xs fp tol]
  by (metis cluster_x_positions_def length_map length_sort length_0_conv)

lemma levels_nth:
  "i < length xs \<Longrightarrow>
   levels_for_bullets_on_page fp xs ! i
     = min (nearest_center fp (cluster_x_positions fp xs 4) (xs ! i)) 2"
  by (auto simp: levels_for_bullets_on_page_def Let_def)

lemma length_levels [simp]: "length (levels_for_bullets_on_page fp xs) = length xs"
  by (simp add: levels_for_bullets_on_page_def Let_def)

lemma levels_le_2: "l \<in> set (levels_for_bullets_on_page fp xs) \<Longrightarrow> l \<le> 2"
  by (auto simp: levels_for_bullets_on_page_def Let_def split: if_splits)

subsection \<open>Rounding at work\<close>

text \<open>
  The doubles nearest to 0.2 and 4.2 differ by more than 4, but their computed difference is
  4.0, so the two offsets fall into one cluster.
\<close>

lemma round_one_fifth: "round_to_double (1 / 5) = 3602879701896397 / 18014398509481984"
  using round_to_double_eq[of "- 3" "1 / 5"] by (simp add: double_eval)

lemma round_21_fifths: "round_to_double (21 / 5) = 4728779608739021 / 1125899906842624"
  using round_to_double_eq[of 2 "21 / 5"] by (simp add: double_eval)

lemma round_difference: "round_to_double (72057594037927939 / 18014398509481984) = 4"
  using round_to_double_eq[of 2 "72057594037927939 / 18014398509481984"]
  by (simp add: double_eval)

lemma rounded_difference_joins:
  "greedy_clusters double_ops [round_to_double (1 / 5), round_to_double (21 / 5)] 4
     = [[round_to_double (1 / 5), round_to_double (21 / 5)]]
   \<and> 4 < round_to_double (21 / 5) - round_to_double (1 / 5)"
  by (simp add: round_one_fifth round_21_fifths cluster_eval round_difference)

text \<open>
  The computed distance of 5 from \<open>- 2 ^ -60\<close> is 5.0, the same as its distance from 10,
  although the first is the larger in exact arithmetic.
\<close>

lemma round_5_plus: "round_to_double (5764607523034234881 / 1152921504606846976) = 5"
  using round_to_double_eq[of 2 "5764607523034234881 / 1152921504606846976"]
  by (simp add: double_eval)

lemma round_tiny: "round_to_double (- (1 / 1152921504606846976)) = - (1 / 1152921504606846976)"
  using round_to_double_eq[of "- 60" "- (1 / 1152921504606846976)"]
  by (simp add: double_eval)

lemma rounded_distance_ties:
  "fl_sub double_ops 5 (- (1 / 2 ^ 60)) = 5 \<and> fl_sub double_ops 5 10 = - 5
   \<and> \<bar>5 - 10\<bar> < \<bar>5 - (- (1 / 2 ^ 60)) :: rat\<bar>"
  by (simp add: double_ops_def round_5_plus)

text \<open>
  C3, as stated, fails: the offsets 0, 4, 8, 12 chain into one cluster with centre 6, and 17
  is a cluster of its own. The offset 12 lies in the first cluster (index 0), but it is
  nearer to 17 than to 6, and the code gives it level 1. Every number involved is a small
  integer, on which double arithmetic is exact.
\<close>

theorem level_by_cluster_counterexample:
  "levels_for_bullets_on_page double_ops [0, 4, 8, 12, 17] ! 3 = 1
   \<and> level_by_cluster_spec double_ops [0, 4, 8, 12, 17] ([0, 4, 8, 12, 17] ! 3) = 0"
  by (simp add: cluster_eval)

text \<open>
  C3, amended: the sorted offsets are cut into clusters wherever the computed difference of
  two neighbours exceeds 4 and nowhere else; the centres are the computed means
  \<open>sum(c) / len(c)\<close> of these clusters, in ascending order; and each bullet's level is the
  index, capped at 2, of the centre whose computed distance from the bullet's offset is
  least, the first such index on a tie. This holds for whatever the float operations
  compute.
\<close>

theorem levels_nearest_centroid:
  assumes i: "i < length xs"
  shows "levels_for_bullets_on_page fp xs ! i
       = min (nearest_center fp (cluster_x_positions fp xs 4) (xs ! i)) 2
    \<and> nearest_center fp (cluster_x_positions fp xs 4) (xs ! i)
       < length (cluster_x_positions fp xs 4)
    \<and> cluster_x_positions fp xs 4
       = sort (map (\<lambda>c. fl_div fp (fl_sum fp c) (of_nat (length c))) (greedy_clusters fp xs 4))
    \<and> concat (greedy_clusters fp xs 4) = sort xs
    \<and> (\<forall>c\<in>set (greedy_clusters fp xs 4). c \<noteq> [])
    \<and> (\<forall>c\<in>set (greedy_clusters fp xs 4). \<forall>m. Suc m < length c \<longrightarrow>
          \<bar>fl_sub fp (c ! Suc m) (c ! m)\<bar> \<le> 4)
    \<and> (\<forall>m. Suc m < length (greedy_clusters fp xs 4) \<longrightarrow>
          4 < \<bar>fl_sub fp (hd (greedy_clusters fp xs 4 ! Suc m)) (last (greedy_clusters fp xs 4 ! m))\<bar>)
    \<and> (\<forall>j<length (cluster_x_positions fp xs 4).
          \<bar>fl_sub fp (xs ! i)
             (cluster_x_positions fp xs 4 ! nearest_center fp (cluster_x_positions fp xs 4) (xs ! i))\<bar>
            \<le> \<bar>fl_sub fp (xs ! i) (cluster_x_positions fp xs 4 ! j)\<bar>)
    \<and> (\<forall>j<nearest_center fp (cluster_x_positions fp xs 4) (xs ! i).
          \<bar>fl_sub fp (xs ! i)
             (cluster_x_positions fp xs 4 ! nearest_center fp (cluster_x_positions fp xs 4) (xs ! i))\<bar>
            < \<bar>fl_sub fp (xs ! i) (cluster_x_positions fp xs 4 ! j)\<bar>)"
proof -
  from i have ne: "xs \<noteq> []" by auto
  then have cne: "cluster_x_positions fp xs 4 \<noteq> []" by (rule cluster_x_positions_not_Nil)
  note st = greedy_clusters_structure[OF ne, of fp 4]
  have cs: "cluster_x_positions fp xs 4
       = sort (map (\<lambda>c. fl_div fp (fl_sum fp c) (of_nat (length c))) (greedy_clusters fp xs 4))"
    by (simp add: cluster_x_positions_def mean_def[abs_def])
  have within: "\<forall>c\<in>set (greedy_clusters fp xs 4). \<forall>m. Suc m < length c \<longrightarrow>
          \<bar>fl_sub fp (c ! Suc m) (c ! m)\<bar> \<le> 4"
    using st(5) by (auto intro: chained_nth)
  have between: "\<forall>m. Suc m < length (greedy_clusters fp xs 4) \<longrightarrow>
          4 < \<bar>fl_sub fp (hd (greedy_clusters fp xs 4 ! Suc m)) (last (greedy_clusters fp xs 4 ! m))\<bar>"
    using st(4) by (auto intro: separated_nth)
  have le: "\<forall>j<length (cluster_x_positions fp xs 4).
          \<bar>fl_sub fp (xs ! i)
             (cluster_x_positions fp xs 4 ! nearest_center fp (cluster_x_positions fp xs 4) (xs ! i))\<bar>
            \<le> \<bar>fl_sub fp (xs ! i) (cluster_x_positions fp xs 4 ! j)\<bar>"
    by (auto intro: nearest_center_le)
  have first: "\<forall>j<nearest_center fp (cluster_x_positions fp xs 4) (xs ! i).
          \<bar>fl_sub fp (xs ! i)
             (cluster_x_positions fp xs 4 ! nearest_center fp (cluster_x_positions fp xs 4) (xs ! i))\<bar>
            < \<bar>fl_sub fp (xs ! i) (cluster_x_positions fp xs 4 ! j)\<bar>"
    by (auto intro: nearest_center_first)
  from levels_nth[OF i] nearest_center_bound[OF cne] cs st(3) st(2) within between le first
  show ?thesis by blast
qed

theorem levels_nearest_centroid_witness:
  "(2::nat) < length [50, 52, 90 :: rat]
   \<and> greedy_clusters double_ops [50, 52, 90] 4 = [[50, 52], [90]]
   \<and> cluster_x_positions double_ops [50, 52, 90] 4 = [51, 90]
   \<and> nearest_center double_ops [51, 90] 90 = 1
   \<and> levels_for_bullets_on_page double_ops [50, 52, 90] ! 2 = 1
   \<and> (1::nat) < length [- (1 / 2 ^ 60), 5, 9, 13, 13 :: rat]
   \<and> greedy_clusters double_ops [- (1 / 2 ^ 60), 5, 9, 13, 13] 4
       = [[- (1 / 2 ^ 60)], [5, 9, 13, 13]]
   \<and> cluster_x_positions double_ops [- (1 / 2 ^ 60), 5, 9, 13, 13] 4 = [- (1 / 2 ^ 60), 10]
   \<and> nearest_center double_ops [- (1 / 2 ^ 60), 10] 5 = 0
   \<and> levels_for_bullets_on_page double_ops [- (1 / 2 ^ 60), 5, 9, 13, 13] ! 1 = 0"
proof -
  have h: "(2::nat) < length [50, 52, 90 :: rat]" by simp
  have g: "greedy_clusters double_ops [50, 52, 90] 4 = [[50, 52], [90]]"
    by (simp add: cluster_eval)
  have c: "sort (map (\<lambda>c. fl_div double_ops (fl_sum double_ops c) (of_nat (length c)))
      [[50, 52], [90]]) = [51, 90]"
    by (simp add: double_ops_def)
  have n: "nearest_center double_ops [51, 90] 90 = 1"
    by (simp add: nearest_center_def double_ops_def)
  note t = levels_nearest_centroid[OF h, of double_ops]
  from t have c': "cluster_x_positions double_ops [50, 52, 90] 4 = [51, 90]"
    unfolding g c by blast
  from t have "levels_for_bullets_on_page double_ops [50, 52, 90] ! 2
      = min (nearest_center double_ops (cluster_x_positions double_ops [50, 52, 90] 4)
               ([50, 52, 90] ! 2)) 2"
    by blast
  then have l: "levels_for_bullets_on_page double_ops [50, 52, 90] ! 2 = 1"
    unfolding c' by (simp add: n)
  have h2: "(1::nat) < length [- (1 / 2 ^ 60), 5, 9, 13, 13 :: rat]" by simp
  have g2: "greedy_clusters double_ops [- (1 / 2 ^ 60), 5, 9, 13, 13] 4
      = [[- (1 / 2 ^ 60)], [5, 9, 13, 13]]"
    by (simp add: cluster_eval round_5_plus)
  have c2: "sort (map (\<lambda>c. fl_div double_ops (fl_sum double_ops c) (of_nat (length c)))
      [[- (1 / 2 ^ 60)], [5, 9, 13, 13]]) = [- (1 / 2 ^ 60), 10]"
    by (simp add: double_ops_def round_tiny)
  have n2: "nearest_center double_ops [- (1 / 2 ^ 60), 10] 5 = 0"
    by (simp add: nearest_center_def double_ops_def round_5_plus)
  have x2: "[- (1 / 2 ^ 60), 5, 9, 13, 13 :: rat] ! 1 = 5" by simp
  note t2 = levels_nearest_centroid[OF h2, of double_ops]
  from t2 have c2': "cluster_x_positions double_ops [- (1 / 2 ^ 60), 5, 9, 13, 13] 4
      = [- (1 / 2 ^ 60), 10]"
    unfolding g2 c2 by blast
  from t2 have "levels_for_bullets_on_page double_ops [- (1 / 2 ^ 60), 5, 9, 13, 13] ! 1
      = min (nearest_center double_ops
               (cluster_x_positions double_ops [- (1 / 2 ^ 60), 5, 9, 13, 13] 4)
               ([- (1 / 2 ^ 60), 5, 9, 13, 13] ! 1)) 2"
    by blast
  then have l2: "levels_for_bullets_on_page double_ops [- (1 / 2 ^ 60), 5, 9, 13, 13] ! 1 = 0"
    unfolding c2' x2 n2 by simp
  from h g c' n l h2 g2 c2' n2 l2 show ?thesis by blast
qed

lemma sort_mset_eq: "mset xs = mset ys \<Longrightarrow> sort xs = sort (ys :: rat list)"
  by (metis mset_sort properties_for_sort sorted_sort)

text \<open>
  C4: clustering any permutation of the same offsets gives the same centres, and an offset
  value gets the same level wherever it stands in either arrangement.
\<close>

theorem clustering_order_independent:
  assumes "mset xs = mset ys"
  shows "cluster_x_positions fp xs tol = cluster_x_positions fp ys tol
    \<and> (\<forall>i<length xs. \<forall>j<length ys. xs ! i = ys ! j \<longrightarrow>
          levels_for_bullets_on_page fp xs ! i = levels_for_bullets_on_page fp ys ! j)"
proof -
  have c: "cluster_x_positions fp xs t = cluster_x_positions fp ys t" for t
    using assms by (simp add: cluster_x_positions_def greedy_clusters_def sort_mset_eq[of xs ys])
  show ?thesis using c by (simp add: levels_nth)
qed

theorem clustering_order_independent_witness:
  "mset [90, 50, 52 :: rat] = mset [50, 52, 90]
   \<and> cluster_x_positions double_ops [90, 50, 52] 4 = cluster_x_positions double_ops [50, 52, 90] 4
   \<and> levels_for_bullets_on_page double_ops [90, 50, 52] ! 0
       = levels_for_bullets_on_page double_ops [50, 52, 90] ! 2"
proof -
  have h: "mset [90, 50, 52 :: rat] = mset [50, 52, 90]" by simp
  from clustering_order_independent[OF h, of double_ops 4] h show ?thesis by simp
qed

section \<open>Results: the indentation encoding and its inverse\<close>

lemmas para_eval = bold_line_paragraph_def bullet_paragraph_def new_paragraph_def new_run_def
  set_font_aptos_12_def bullet_style_name_def blank_paragraph_def para_text_def
  is_heading_def is_bullet_def aptos_body_def

lemmas indent_eval = infer_level_from_indent_def apply_level_indent_def Pt_def pt_of_def
  py_round_def BASE_LEFT_def STEP_def HANG_def Let_def

text \<open>
  C1: for every level L of 0, 1, 2 the postprocessor writes a left indent of 18 + 18 L
  points and a negative first-line indent, the paragraph is list-like for the remapper, and
  the remapper's inference from the left indent gives back L.
\<close>

theorem indent_level_round_trip:
  assumes "L \<le> 2"
  shows "left_indent (apply_level_indent p L) = Some (Pt (18 + 18 * of_nat L))
    \<and> first_line_indent (apply_level_indent p L) = Some (Pt (- 18))
    \<and> Pt (- 18) < 0
    \<and> is_list_like (apply_level_indent p L)
    \<and> infer_level_from_indent (apply_level_indent p L) = int L"
proof -
  from assms consider "L = 0" | "L = 1" | "L = 2" by linarith
  then show ?thesis
    by cases (simp_all add: indent_eval is_list_like_def)
qed

theorem indent_level_round_trip_witness:
  "(2::nat) \<le> 2 \<and> left_indent (apply_level_indent (new_paragraph [] ''List Bullet'') 2) = Some 685800
   \<and> infer_level_from_indent (apply_level_indent (new_paragraph [] ''List Bullet'') 2) = 2"
proof -
  have h: "(2::nat) \<le> 2" by simp
  have "Pt (18 + 18 * of_nat 2) = 685800" by (simp add: Pt_def)
  with indent_level_round_trip[OF h, of "new_paragraph [] ''List Bullet''"] show ?thesis by simp
qed

section \<open>Results: template remapper\<close>

lemma infer_level_range: "0 \<le> infer_level_from_indent sp \<and> infer_level_from_indent sp \<le> 2"
  by (simp add: infer_level_from_indent_def Let_def split: option.splits)

lemma remap_paragraph_None: "(remap_paragraph template_styles sp = None) = (strip (para_text sp) = [])"
  by (simp add: remap_paragraph_def Let_def)

lemma remap_paragraph_list_like:
  assumes "is_list_like sp" and "strip (para_text sp) \<noteq> []"
  shows "\<exists>dp. remap_paragraph template_styles sp = Some dp
    \<and> out_numPr dp = Some \<lparr> num_id = 1, ilvl = infer_level_from_indent sp \<rparr>
    \<and> out_style dp = (if ''List Paragraph'' \<in> set template_styles then Some ''List Paragraph'' else None)"
  using assms infer_level_range[of sp]
  by (simp add: remap_paragraph_def Let_def set_paragraph_numbering_def
      clear_direct_paragraph_formatting_def copy_runs_force_not_bold_def force_runs_plain_def
      empty_out_paragraph_def TEMPLATE_NUM_ID_def TEMPLATE_LIST_STYLE_def)

lemma map_filter_remap:
  "List.map_filter (remap_paragraph template_styles) src
     = map (\<lambda>sp. the (remap_paragraph template_styles sp))
         (filter (\<lambda>sp. strip (para_text sp) \<noteq> []) src)"
proof (induction src)
  case Nil
  then show ?case by (simp add: List.map_filter_simps)
next
  case (Cons a src)
  show ?case
  proof (cases "strip (para_text a) = []")
    case True
    then have "remap_paragraph template_styles a = None" by (simp add: remap_paragraph_None)
    with True Cons.IH show ?thesis by (simp add: List.map_filter_simps)
  next
    case False
    then have "remap_paragraph template_styles a \<noteq> None" by (simp add: remap_paragraph_None)
    then obtain dp where "remap_paragraph template_styles a = Some dp" by auto
    with False Cons.IH show ?thesis by (simp add: List.map_filter_simps)
  qed
qed

text \<open>
  C8: when the template defines the style \<open>Normal\<close>, \<open>apply_template_bullets\<close> writes one
  output paragraph for each source paragraph with text, in order, and the output paragraph
  of a list-like source paragraph is bound to the numbering definition 1 at the inferred
  level, whether or not the template defines the style \<open>List Paragraph\<close>; without that
  style the paragraph is left unstyled. Without \<open>Normal\<close> the function raises before it
  writes a paragraph.
\<close>

theorem remap_list_like_numbering:
  "(''Normal'' \<notin> set template_styles \<longrightarrow>
      apply_template_bullets template_styles src = Inl (KeyError ''Normal''))
   \<and> (''Normal'' \<in> set template_styles \<longrightarrow>
      (\<exists>outs. apply_template_bullets template_styles src = Inr outs
         \<and> length outs = length (filter (\<lambda>sp. strip (para_text sp) \<noteq> []) src)
         \<and> (\<forall>k<length outs.
               is_list_like (filter (\<lambda>sp. strip (para_text sp) \<noteq> []) src ! k) \<longrightarrow>
               out_numPr (outs ! k)
                 = Some \<lparr> num_id = 1,
                     ilvl = infer_level_from_indent
                              (filter (\<lambda>sp. strip (para_text sp) \<noteq> []) src ! k) \<rparr>
               \<and> out_style (outs ! k)
                 = (if ''List Paragraph'' \<in> set template_styles
                    then Some ''List Paragraph'' else None))))"
proof (intro conjI impI)
  assume "''Normal'' \<notin> set template_styles"
  then show "apply_template_bullets template_styles src = Inl (KeyError ''Normal'')"
    by (simp add: apply_template_bullets_def set_aptos_12_def styles_lookup_def)
next
  assume n: "''Normal'' \<in> set template_styles"
  let ?kept = "filter (\<lambda>sp. strip (para_text sp) \<noteq> []) src"
  let ?outs = "map (\<lambda>sp. the (remap_paragraph template_styles sp)) ?kept"
  have r: "apply_template_bullets template_styles src = Inr ?outs"
    using n by (simp add: apply_template_bullets_def set_aptos_12_def styles_lookup_def
        map_filter_remap)
  have "out_numPr (?outs ! k) = Some \<lparr> num_id = 1, ilvl = infer_level_from_indent (?kept ! k) \<rparr>
      \<and> out_style (?outs ! k)
          = (if ''List Paragraph'' \<in> set template_styles then Some ''List Paragraph'' else None)"
    if k: "k < length ?outs" and l: "is_list_like (?kept ! k)" for k
  proof -
    from k have kk: "k < length ?kept" by simp
    then have "?kept ! k \<in> set ?kept" by (rule nth_mem)
    then have t: "strip (para_text (?kept ! k)) \<noteq> []" by simp
    from remap_paragraph_list_like[OF l t, of template_styles] kk show ?thesis by auto
  qed
  with r show "\<exists>outs. apply_template_bullets template_styles src = Inr outs
         \<and> length outs = length ?kept
         \<and> (\<forall>k<length outs.
               is_list_like (?kept ! k) \<longrightarrow>
               out_numPr (outs ! k)
                 = Some \<lparr> num_id = 1, ilvl = infer_level_from_indent (?kept ! k) \<rparr>
               \<and> out_style (outs ! k)
                 = (if ''List Paragraph'' \<in> set template_styles
                    then Some ''List Paragraph'' else None))"
    by (intro exI[of _ ?outs]) simp
qed

theorem remap_list_like_numbering_witness:
  "''Normal'' \<in> set [''Normal''] \<and> ''List Paragraph'' \<notin> set [''Normal'']
   \<and> is_list_like \<lparr> para_style = ''Normal'', para_runs = [new_run (ustr ''point'')],
       left_indent = Some (Pt 36), first_line_indent = Some (Pt (- 18)) \<rparr>
   \<and> map_sum id (map (\<lambda>dp. (out_numPr dp, out_style dp)))
       (apply_template_bullets [''Normal'']
          [blank_paragraph,
           \<lparr> para_style = ''Normal'', para_runs = [new_run (ustr ''point'')],
             left_indent = Some (Pt 36), first_line_indent = Some (Pt (- 18)) \<rparr>])
       = Inr [(Some \<lparr> num_id = 1, ilvl = 1 \<rparr>, None)]
   \<and> apply_template_bullets []
          [blank_paragraph,
           \<lparr> para_style = ''Normal'', para_runs = [new_run (ustr ''point'')],
             left_indent = Some (Pt 36), first_line_indent = Some (Pt (- 18)) \<rparr>]
       = Inl (KeyError ''Normal'')"
proof -
  let ?sp = "\<lparr> para_style = ''Normal'', para_runs = [new_run (ustr ''point'')],
       left_indent = Some (Pt 36), first_line_indent = Some (Pt (- 18)) \<rparr>"
  let ?src = "[blank_paragraph, ?sp]"
  have a: "is_list_like ?sp"
    by (simp add: is_list_like_def startswith_def Pt_def pt_of_def)
  have c: "infer_level_from_indent ?sp = 1"
    by (simp add: indent_eval)
  have f: "filter (\<lambda>sp. strip (para_text sp) \<noteq> []) ?src = [?sp]"
    by (simp add: para_eval text_eval)
  note t = remap_list_like_numbering[of "[''Normal'']" ?src]
  from t obtain outs where o: "apply_template_bullets [''Normal''] ?src = Inr outs"
    and len: "length outs = 1"
    and k: "\<forall>k<length outs. is_list_like ([?sp] ! k) \<longrightarrow>
         out_numPr (outs ! k) = Some \<lparr> num_id = 1, ilvl = infer_level_from_indent ([?sp] ! k) \<rparr>
         \<and> out_style (outs ! k) = None"
    unfolding f by auto
  from len obtain dp where d: "outs = [dp]"
    by (cases outs) auto
  from k d a c have "out_numPr dp = Some \<lparr> num_id = 1, ilvl = 1 \<rparr> \<and> out_style dp = None"
    by simp
  with o d have one: "map_sum id (map (\<lambda>dp. (out_numPr dp, out_style dp)))
       (apply_template_bullets [''Normal''] ?src) = Inr [(Some \<lparr> num_id = 1, ilvl = 1 \<rparr>, None)]"
    by simp
  from remap_list_like_numbering[of "[]" ?src]
  have two: "apply_template_bullets [] ?src = Inl (KeyError ''Normal'')" by simp
  from a one two show ?thesis by simp
qed

section \<open>Results: outline assembler\<close>

lemma lower_str_Nil [simp]: "lower_str tbl [] = []"
  by (simp add: lower_str_def)

lemma strip_Nil [simp]: "strip [] = []"
  by (simp add: strip_def lstrip_def rstrip_def)

lemma ustr_outline_ne: "ustr ''outline'' \<noteq> []" "ustr ''summary'' \<noteq> []"
  by (simp_all add: ustr_def)

text \<open>
  C6: when the title chosen for a page, trimmed and lower-cased, is \<open>outline\<close> or
  \<open>summary\<close>, the page leaves the document as it was: no title, heading, bullet or blank
  separator is added, and the assembled document is the one of the other pages.
\<close>

theorem skipped_page_emits_nothing:
  assumes "choose_title tbl lines = Some t"
    and "lower_str tbl (strip t) = ustr ''outline'' \<or> lower_str tbl (strip t) = ustr ''summary''"
  shows "convert_page tbl fp force lines xs d = d
    \<and> (normalize_lines tbl raw = lines \<longrightarrow>
         assemble_pages tbl fp force (before @ (raw, xs) # after) = assemble_pages tbl fp force (before @ after))"
proof -
  from assms(2) have "t \<noteq> []" using ustr_outline_ne by auto
  with assms have "title_skips_page tbl (choose_title tbl lines)"
    by (auto simp: title_skips_page_def truthy_def)
  then have c: "convert_page tbl fp force lines xs d' = d'" for d'
    by (simp add: convert_page_def Let_def)
  then show ?thesis
    by (simp add: assemble_pages_def convert_raw_page_def)
qed

theorem skipped_page_emits_nothing_witness:
  "choose_title latin1_ucd [ustr ''Outline'', [8226] @ ustr '' Topic one''] = Some (ustr ''Outline'')
   \<and> lower_str latin1_ucd (strip (ustr ''Outline'')) = ustr ''outline''
   \<and> convert_page latin1_ucd double_ops False [ustr ''Outline'', [8226] @ ustr '' Topic one''] [72] [] = []
   \<and> normalize_lines latin1_ucd (ustr ''Outline'' @ [10, 8226] @ ustr '' Topic one'')
       = [ustr ''Outline'', [8226] @ ustr '' Topic one'']
   \<and> assemble_pages latin1_ucd double_ops False [(ustr ''Outline'' @ [10, 8226] @ ustr '' Topic one'', [72])] = []"
proof -
  have a: "choose_title latin1_ucd [ustr ''Outline'', [8226] @ ustr '' Topic one''] = Some (ustr ''Outline'')"
    by (simp add: choose_title_def text_eval)
  have b: "lower_str latin1_ucd (strip (ustr ''Outline'')) = ustr ''outline''"
    by (simp add: text_eval latin1_eval)
  have n: "normalize_lines latin1_ucd (ustr ''Outline'' @ [10, 8226] @ ustr '' Topic one'')
       = [ustr ''Outline'', [8226] @ ustr '' Topic one'']"
    by (simp add: normalize_lines_def splitlines_def is_linebreak_def collapse_ws_def
        is_footer_noise_def text_eval latin1_eval)
  have e: "assemble_pages latin1_ucd double_ops False ([] @ []) = []"
    by (simp add: assemble_pages_def)
  from skipped_page_emits_nothing[OF a disjI1[OF b], where fp = double_ops and force = False
      and xs = "[72]" and d = "[]" and before = "[]" and after = "[]"
      and raw = "ustr ''Outline'' @ [10, 8226] @ ustr '' Topic one''"] a b n e
  show ?thesis by simp
qed

lemma process_line_title: "t \<noteq> [] \<Longrightarrow> process_line tbl force (Some t) levels st t = st"
  by (simp add: process_line_def truthy_def)

lemma process_lines_filter_title:
  "t \<noteq> [] \<Longrightarrow> process_lines tbl force (Some t) levels st lines
     = process_lines tbl force (Some t) levels st (filter (\<lambda>l. l \<noteq> t) lines)"
  unfolding process_lines_def
  by (induction lines arbitrary: st) (simp_all add: process_line_title)

text \<open>
  C10: with a chosen title, a line equal to the title leaves the state of the loop as it
  was, the loop gives the same result with all such lines removed, and the page gives the
  same paragraphs as the page in which the title occurs once, in front.
\<close>

theorem title_lines_excluded:
  assumes "choose_title tbl lines = Some t" and "t \<noteq> []"
  shows "process_line tbl force (Some t) levels st t = st
    \<and> process_lines tbl force (Some t) levels st lines
        = process_lines tbl force (Some t) levels st (filter (\<lambda>l. l \<noteq> t) lines)
    \<and> convert_page tbl fp force lines xs d = convert_page tbl fp force (t # filter (\<lambda>l. l \<noteq> t) lines) xs d"
proof -
  let ?P = "\<lambda>line. bullet_text line = None \<and> (looks_like_heading tbl line \<or> length line \<le> 60)"
  from assms(1) have Pt: "?P t" and ne: "lines \<noteq> []"
    by (auto simp: choose_title_def find_Some_iff)
  then have ct: "choose_title tbl (t # filter (\<lambda>l. l \<noteq> t) lines) = Some t"
    by (simp add: choose_title_def)
  have pl: "process_lines tbl force (Some t) levels' st' (t # filter (\<lambda>l. l \<noteq> t) lines)
      = process_lines tbl force (Some t) levels' st' lines" for levels' st'
    using process_lines_filter_title[OF assms(2), of tbl force levels' st' lines]
    by (simp add: process_lines_def process_line_title[OF assms(2)])
  show ?thesis
    using process_line_title[OF assms(2)] process_lines_filter_title[OF assms(2)]
    by (simp add: convert_page_def assms(1) ct ne pl Let_def)
qed

theorem title_lines_excluded_witness:
  "choose_title latin1_ucd [ustr ''Intro'', [8226] @ ustr '' a'', ustr ''Intro''] = Some (ustr ''Intro'')
   \<and> ustr ''Intro'' \<noteq> []
   \<and> convert_page latin1_ucd double_ops False [ustr ''Intro'', [8226] @ ustr '' a'', ustr ''Intro''] [] []
     = convert_page latin1_ucd double_ops False [ustr ''Intro'', [8226] @ ustr '' a''] [] []"
proof -
  have a: "choose_title latin1_ucd [ustr ''Intro'', [8226] @ ustr '' a'', ustr ''Intro''] = Some (ustr ''Intro'')"
    by (simp add: choose_title_def text_eval)
  have b: "ustr ''Intro'' \<noteq> []" by (simp add: ustr_def)
  have f: "filter (\<lambda>l. l \<noteq> ustr ''Intro'') [ustr ''Intro'', [8226] @ ustr '' a'', ustr ''Intro'']
      = [[8226] @ ustr '' a'']"
    by (simp add: ustr_def)
  from title_lines_excluded[OF a b, where fp = double_ops and force = False and xs = "[]"
      and d = "[]"] a b show ?thesis
    unfolding f by simp
qed

lemma extends_refl: "extends_nonblank d d"
  by (simp add: extends_nonblank_def)

lemma extends_trans: "extends_nonblank a b \<Longrightarrow> extends_nonblank b c \<Longrightarrow> extends_nonblank a c"
  by (auto simp: extends_nonblank_def)

lemma bullet_paragraph_not_blank: "bullet_paragraph text level \<noteq> blank_paragraph"
proof
  assume "bullet_paragraph text level = blank_paragraph"
  then have "para_style (bullet_paragraph text level) = para_style blank_paragraph" by simp
  then show False
    by (simp add: bullet_paragraph_def blank_paragraph_def new_paragraph_def bullet_style_name_def
        Let_def split: if_splits)
qed

lemma bold_line_paragraph_not_blank: "bold_line_paragraph text \<noteq> blank_paragraph"
proof
  assume "bold_line_paragraph text = blank_paragraph"
  then have "para_runs (bold_line_paragraph text) = para_runs blank_paragraph" by simp
  then show False
    by (simp add: bold_line_paragraph_def blank_paragraph_def new_paragraph_def)
qed

lemma extends_add_bullet: "extends_nonblank d (add_bullet d text level)"
  using bullet_paragraph_not_blank[of "text" level]
  by (auto simp: extends_nonblank_def add_bullet_def)

lemma extends_add_bold_line: "extends_nonblank d (add_bold_line d text)"
  using bold_line_paragraph_not_blank[of "text"]
  by (auto simp: extends_nonblank_def add_bold_line_def)

lemma flush_bullet_extends: "extends_nonblank (doc st) (doc (flush_bullet st))"
  by (simp add: flush_bullet_def extends_refl extends_add_bullet split: option.splits)

lemma process_line_extends:
  "extends_nonblank (doc st) (doc (process_line tbl force title levels st line))"
  using flush_bullet_extends[of st]
    extends_trans[OF flush_bullet_extends[of st] extends_add_bold_line[of "doc (flush_bullet st)" line]]
  by (simp add: process_line_def Let_def extends_refl split: option.splits)

lemma process_lines_extends:
  "extends_nonblank (doc st) (doc (process_lines tbl force title levels st lines))"
  unfolding process_lines_def
proof (induction lines arbitrary: st)
  case Nil
  then show ?case by (simp add: extends_refl)
next
  case (Cons line lines)
  show ?case
    using extends_trans[OF process_line_extends Cons.IH] by simp
qed

lemma strip_idem: "strip (strip s) = strip s"
proof -
  let ?P = py_isspace
  let ?u = "dropWhile ?P s"
  let ?v = "rev (dropWhile ?P (rev ?u))"
  have pre: "?u = ?v @ rev (takeWhile ?P (rev ?u))"
    by (metis rev_append rev_rev_ident takeWhile_dropWhile_id)
  have "dropWhile ?P ?v = ?v"
  proof (cases "?v = []")
    case True
    then show ?thesis by (metis dropWhile.simps(1))
  next
    case False
    then have "?u \<noteq> []" by (metis dropWhile.simps(1) rev.simps(1))
    then have "\<not> ?P (hd ?u)" by (rule hd_dropWhile)
    moreover from pre False have "hd ?u = hd ?v" by (metis hd_append2)
    ultimately show ?thesis using False by (simp add: dropWhile_eq_self_iff)
  qed
  then show ?thesis
    by (simp add: strip_def lstrip_def rstrip_def)
qed

lemma bullet_text_Some:
  assumes "bullet_text line = Some bt"
  shows "bt \<noteq> []" and "strip bt = bt"
proof -
  from assms obtain g where g: "BULLET_RE_match line = Some g" and bt: "bt = strip g"
    by (auto simp: bullet_text_def split: option.splits)
  from g obtain rest where "g = strip rest" "g \<noteq> []"
    by (auto simp: BULLET_RE_match_def Let_def split: list.splits if_splits)
  then show "bt \<noteq> []" and "strip bt = bt"
    using bt by (simp_all add: strip_idem)
qed

lemma choose_title_not_bullet: "choose_title tbl lines = Some t \<Longrightarrow> bullet_text t = None"
  by (auto simp: choose_title_def find_Some_iff)

lemma process_lines_snoc:
  "process_lines tbl force title levels st (front @ [line])
     = process_line tbl force title levels (process_lines tbl force title levels st front) line"
  by (simp add: process_lines_def)

lemma process_line_bullet:
  assumes "bullet_text line = Some bt"
  shows "\<exists>lvl. doc (flush_bullet (process_line tbl force (choose_title tbl lines) levels st line))
      = doc (flush_bullet st) @ [bullet_paragraph bt lvl]"
proof -
  have nt: "\<not> (truthy (choose_title tbl lines) \<and> Some line = choose_title tbl lines)"
    using assms choose_title_not_bullet[of tbl lines line] by auto
  note b = bullet_text_Some[OF assms]
  show ?thesis
    using nt assms b
    by (auto simp: process_line_def flush_bullet_def add_bullet_def Let_def)
qed

lemma process_lines_append:
  "process_lines tbl force title levels st (front @ rest)
     = process_lines tbl force title levels (process_lines tbl force title levels st front) rest"
  by (simp add: process_lines_def)

lemma flush_bullet_doc:
  "doc (flush_bullet st)
     = doc st @ (if truthy (current_bullet st)
                 then [bullet_paragraph (strip (the (current_bullet st))) (current_level st)]
                 else [])"
  by (simp add: flush_bullet_def truthy_def add_bullet_def split: option.splits)

lemma process_line_bullet_state:
  assumes "bullet_text line = Some bt"
  shows "current_bullet (process_line tbl force (choose_title tbl lines) levels st line) = Some bt
    \<and> doc (process_line tbl force (choose_title tbl lines) levels st line) = doc (flush_bullet st)"
proof -
  have nt: "\<not> (truthy (choose_title tbl lines) \<and> Some line = choose_title tbl lines)"
    using assms choose_title_not_bullet[of tbl lines line] by auto
  show ?thesis
    using nt assms by (auto simp: process_line_def Let_def)
qed

lemma joined_not_Nil: "b \<noteq> [] \<Longrightarrow> foldl (\<lambda>b c. b @ [32] @ c) b conts \<noteq> ([] :: ustring)"
  by (induction conts arbitrary: b) simp_all

lemma process_lines_continuations:
  assumes "current_bullet st = Some b" and "b \<noteq> []"
    and "\<forall>c\<in>set conts. bullet_text c = None \<and> \<not> looks_like_heading tbl c \<and> Some c \<noteq> title"
  shows "process_lines tbl False title levels st conts
     = st\<lparr> current_bullet := Some (foldl (\<lambda>b c. b @ [32] @ c) b conts) \<rparr>"
  using assms
proof (induction conts arbitrary: st b)
  case Nil
  then show ?case by (simp add: process_lines_def)
next
  case (Cons c conts)
  let ?s = "st\<lparr> current_bullet := Some (b @ [32] @ c) \<rparr>"
  have step: "process_line tbl False title levels st c = ?s"
    using Cons.prems by (simp add: process_line_def truthy_def)
  have "process_lines tbl False title levels ?s conts
      = ?s\<lparr> current_bullet := Some (foldl (\<lambda>b c. b @ [32] @ c) (b @ [32] @ c) conts) \<rparr>"
    using Cons.prems by (intro Cons.IH) simp_all
  with step show ?case by (simp add: process_lines_def)
qed

lemma process_line_forced:
  assumes "bullet_text line = None" and "\<not> looks_like_heading tbl line"
    and "Some line \<noteq> title"
  shows "process_line tbl True title levels st line
     = (flush_bullet st)\<lparr> current_level := 0, current_bullet := Some line \<rparr>"
  using assms by (simp add: process_line_def)

text \<open>
  C9, as stated, fails: a page whose only text is the page number 12 has no line left after
  normalization; it is not skipped by the Outline/Summary rule, and the loop continues
  before anything is emitted, the blank separator included.
\<close>

theorem page_without_lines_counterexample:
  "normalize_lines latin1_ucd (ustr ''12'') = []
   \<and> \<not> page_skipped latin1_ucd (normalize_lines latin1_ucd (ustr ''12''))
   \<and> convert_raw_page latin1_ucd double_ops False (ustr ''12'', []) [] = []"
proof -
  have n: "normalize_lines latin1_ucd (ustr ''12'') = []"
    by (simp add: normalize_lines_def splitlines_def is_linebreak_def collapse_ws_def
        is_footer_noise_def text_eval latin1_eval)
  show ?thesis
    by (simp add: n convert_raw_page_def convert_page_def page_skipped_def choose_title_def
        title_skips_page_def truthy_def)
qed

text \<open>
  C9, amended: for every page that has at least one line after normalization and is not
  skipped by the Outline/Summary rule, the document grows by the page's paragraphs, none of
  them blank, followed by exactly one blank separator, also when there is no other
  paragraph. The separator comes after the flush: the output is the document as the loop
  over the lines leaves it, then the bullet the loop leaves open, if any, then the
  separator. So a bullet opened by the last line, a bullet with the continuation lines that
  follow it to the end of the page, and the last plain line in the mode where every line is
  a bullet each stand just before the separator.
\<close>

theorem page_ends_with_one_blank:
  assumes "lines \<noteq> []" and "\<not> page_skipped tbl lines"
  shows "(\<exists>body. convert_page tbl fp force lines xs d = d @ body @ [blank_paragraph]
            \<and> blank_paragraph \<notin> set body)
    \<and> convert_page tbl fp force lines xs d
        = doc (page_state tbl fp force lines xs d)
          @ (if truthy (current_bullet (page_state tbl fp force lines xs d))
             then [bullet_paragraph
                     (strip (the (current_bullet (page_state tbl fp force lines xs d))))
                     (current_level (page_state tbl fp force lines xs d))]
             else [])
          @ [blank_paragraph]
    \<and> (\<forall>bt. bullet_text (last lines) = Some bt \<longrightarrow>
          (\<exists>body lvl. convert_page tbl fp force lines xs d
               = d @ body @ [bullet_paragraph bt lvl, blank_paragraph]))
    \<and> (\<forall>front bl conts bt.
          lines = front @ bl # conts \<and> bullet_text bl = Some bt \<and> \<not> force
          \<and> (\<forall>c\<in>set conts. bullet_text c = None \<and> \<not> looks_like_heading tbl c
                \<and> Some c \<noteq> choose_title tbl lines) \<longrightarrow>
          (\<exists>body lvl. convert_page tbl fp force lines xs d
               = d @ body
                 @ [bullet_paragraph (strip (foldl (\<lambda>b c. b @ [32] @ c) bt conts)) lvl,
                    blank_paragraph]))
    \<and> (force \<and> last lines \<noteq> [] \<and> bullet_text (last lines) = None
        \<and> \<not> looks_like_heading tbl (last lines) \<and> Some (last lines) \<noteq> choose_title tbl lines \<longrightarrow>
          (\<exists>body. convert_page tbl fp force lines xs d
               = d @ body @ [bullet_paragraph (strip (last lines)) 0, blank_paragraph]))"
proof -
  let ?title = "choose_title tbl lines"
  let ?levels = "levels_for_bullets_on_page fp xs"
  let ?dt = "if truthy ?title then add_bold_line d (the ?title) else d"
  let ?init = "\<lparr> doc = ?dt, current_bullet = None, current_level = 0, bullet_level_idx = 0 \<rparr>"
  let ?run = "process_lines tbl force ?title ?levels ?init"
  let ?fin = "?run lines"
  have ps: "page_state tbl fp force lines xs d = ?fin"
    by (simp add: page_state_def Let_def)
  have cp: "convert_page tbl fp force lines xs d = doc (flush_bullet ?fin) @ [blank_paragraph]"
    using assms by (simp add: convert_page_def page_skipped_def Let_def)
  have e1: "extends_nonblank d ?dt" by (simp add: extends_refl extends_add_bold_line)
  have grown: "\<exists>body. doc (flush_bullet (?run part)) = d @ body \<and> blank_paragraph \<notin> set body"
    for part
  proof -
    have "extends_nonblank (doc ?init) (doc (?run part))" by (rule process_lines_extends)
    then have e2: "extends_nonblank ?dt (doc (?run part))" by simp
    have e3: "extends_nonblank (doc (?run part)) (doc (flush_bullet (?run part)))"
      by (rule flush_bullet_extends)
    from extends_trans[OF e1 extends_trans[OF e2 e3]] show ?thesis
      by (simp add: extends_nonblank_def)
  qed
  from grown[of lines] cp
  have one: "\<exists>body. convert_page tbl fp force lines xs d = d @ body @ [blank_paragraph]
      \<and> blank_paragraph \<notin> set body" by auto
  have two: "convert_page tbl fp force lines xs d
        = doc (page_state tbl fp force lines xs d)
          @ (if truthy (current_bullet (page_state tbl fp force lines xs d))
             then [bullet_paragraph
                     (strip (the (current_bullet (page_state tbl fp force lines xs d))))
                     (current_level (page_state tbl fp force lines xs d))]
             else [])
          @ [blank_paragraph]"
    unfolding ps cp by (simp only: flush_bullet_doc append_assoc)
  have three: "\<exists>body lvl. convert_page tbl fp force lines xs d
      = d @ body @ [bullet_paragraph bt lvl, blank_paragraph]"
    if bt: "bullet_text (last lines) = Some bt" for bt
  proof -
    let ?prev = "?run (butlast lines)"
    from assms(1) have "lines = butlast lines @ [last lines]" by simp
    then have "?fin = process_line tbl force ?title ?levels ?prev (last lines)"
      using process_lines_snoc[of tbl force ?title ?levels ?init "butlast lines" "last lines"]
      by simp
    with process_line_bullet[OF bt, where tbl = tbl and force = force and lines = lines
        and levels = ?levels and st = ?prev]
    obtain lvl where f: "doc (flush_bullet ?fin) = doc (flush_bullet ?prev) @ [bullet_paragraph bt lvl]"
      by auto
    from grown[of "butlast lines"] obtain body' where "doc (flush_bullet ?prev) = d @ body'"
      by auto
    with f cp show ?thesis by auto
  qed
  have four: "\<exists>body lvl. convert_page tbl fp force lines xs d
      = d @ body @ [bullet_paragraph (strip (foldl (\<lambda>b c. b @ [32] @ c) bt conts)) lvl,
                    blank_paragraph]"
    if l: "lines = front @ bl # conts" and bt: "bullet_text bl = Some bt" and nf: "\<not> force"
      and cs: "\<forall>c\<in>set conts. bullet_text c = None \<and> \<not> looks_like_heading tbl c
                \<and> Some c \<noteq> choose_title tbl lines"
    for front bl conts bt
  proof -
    let ?prev = "?run front"
    let ?opened = "process_line tbl force ?title ?levels ?prev bl"
    let ?joined = "foldl (\<lambda>b c. b @ [32] @ c) bt conts"
    have "lines = (front @ [bl]) @ conts" using l by simp
    then have "?fin = process_lines tbl force ?title ?levels (?run (front @ [bl])) conts"
      by (simp only: process_lines_append)
    then have fin: "?fin = process_lines tbl force ?title ?levels ?opened conts"
      by (simp only: process_lines_snoc)
    note o = process_line_bullet_state[OF bt, where tbl = tbl and force = force
        and lines = lines and levels = ?levels and st = ?prev]
    note b = bullet_text_Some[OF bt]
    have "process_lines tbl False ?title ?levels ?opened conts
        = ?opened\<lparr> current_bullet := Some ?joined \<rparr>"
      using o b(1) cs by (intro process_lines_continuations) simp_all
    with fin nf have fin': "?fin = ?opened\<lparr> current_bullet := Some ?joined \<rparr>" by simp
    have "doc (flush_bullet ?fin)
        = doc (flush_bullet ?prev) @ [bullet_paragraph (strip ?joined) (current_level ?opened)]"
      unfolding fin' using o joined_not_Nil[OF b(1), of conts]
      by (simp add: flush_bullet_doc truthy_def)
    moreover from grown[of front] obtain body' where "doc (flush_bullet ?prev) = d @ body'"
      by auto
    ultimately show ?thesis using cp by auto
  qed
  have five: "\<exists>body. convert_page tbl fp force lines xs d
      = d @ body @ [bullet_paragraph (strip (last lines)) 0, blank_paragraph]"
    if f: "force" and ne: "last lines \<noteq> []" and nb: "bullet_text (last lines) = None"
      and nh: "\<not> looks_like_heading tbl (last lines)"
      and nt: "Some (last lines) \<noteq> choose_title tbl lines"
  proof -
    let ?prev = "?run (butlast lines)"
    from assms(1) have "lines = butlast lines @ [last lines]" by simp
    then have "?fin = process_line tbl force ?title ?levels ?prev (last lines)"
      using process_lines_snoc[of tbl force ?title ?levels ?init "butlast lines" "last lines"]
      by simp
    with f process_line_forced[OF nb nh nt, of ?levels ?prev]
    have "?fin = (flush_bullet ?prev)\<lparr> current_level := 0, current_bullet := Some (last lines) \<rparr>"
      by simp
    then have "doc (flush_bullet ?fin)
        = doc (flush_bullet ?prev) @ [bullet_paragraph (strip (last lines)) 0]"
      using ne by (simp add: flush_bullet_doc truthy_def)
    moreover from grown[of "butlast lines"] obtain body' where "doc (flush_bullet ?prev) = d @ body'"
      by auto
    ultimately show ?thesis using cp by auto
  qed
  from one two three four five show ?thesis by blast
qed

theorem page_ends_with_one_blank_witness:
  "[ustr ''this line is plain text and it is much longer than sixty code points in total''] \<noteq> []
   \<and> \<not> page_skipped latin1_ucd [ustr ''this line is plain text and it is much longer than sixty code points in total'']
   \<and> convert_page latin1_ucd double_ops False [ustr ''this line is plain text and it is much longer than sixty code points in total''] [] [] = [blank_paragraph]
   \<and> \<not> page_skipped latin1_ucd [[8226] @ ustr '' a'']
   \<and> bullet_text (last [[8226] @ ustr '' a'']) = Some (ustr ''a'')
   \<and> convert_page latin1_ucd double_ops False [[8226] @ ustr '' a''] [] []
       = [bullet_paragraph (ustr ''a'') 0, blank_paragraph]
   \<and> \<not> page_skipped latin1_ucd
         [ustr ''Intro'', [8226] @ ustr '' First point'', ustr ''continuation of first'']
   \<and> [ustr ''Intro'', [8226] @ ustr '' First point'', ustr ''continuation of first'']
       = [ustr ''Intro''] @ ([8226] @ ustr '' First point'') # [ustr ''continuation of first'']
   \<and> bullet_text ([8226] @ ustr '' First point'') = Some (ustr ''First point'')
   \<and> bullet_text (ustr ''continuation of first'') = None
   \<and> \<not> looks_like_heading latin1_ucd (ustr ''continuation of first'')
   \<and> Some (ustr ''continuation of first'')
       \<noteq> choose_title latin1_ucd
           [ustr ''Intro'', [8226] @ ustr '' First point'', ustr ''continuation of first'']
   \<and> strip (foldl (\<lambda>b c. b @ [32] @ c) (ustr ''First point'') [ustr ''continuation of first''])
       = ustr ''First point continuation of first''
   \<and> convert_page latin1_ucd double_ops False
         [ustr ''Intro'', [8226] @ ustr '' First point'', ustr ''continuation of first''] [] []
       = [bold_line_paragraph (ustr ''Intro''),
          bullet_paragraph (ustr ''First point continuation of first'') 0,
          blank_paragraph]
   \<and> \<not> page_skipped latin1_ucd [ustr ''Notes:'', ustr ''plain line one'']
   \<and> last [ustr ''Notes:'', ustr ''plain line one''] \<noteq> []
   \<and> bullet_text (last [ustr ''Notes:'', ustr ''plain line one'']) = None
   \<and> \<not> looks_like_heading latin1_ucd (last [ustr ''Notes:'', ustr ''plain line one''])
   \<and> Some (last [ustr ''Notes:'', ustr ''plain line one''])
       \<noteq> choose_title latin1_ucd [ustr ''Notes:'', ustr ''plain line one'']
   \<and> convert_page latin1_ucd double_ops True [ustr ''Notes:'', ustr ''plain line one''] [] []
       = [bold_line_paragraph (ustr ''Notes:''),
          bullet_paragraph (ustr ''plain line one'') 0,
          blank_paragraph]"
proof -
  let ?l = "ustr ''this line is plain text and it is much longer than sixty code points in total''"
  let ?b = "[8226] @ ustr '' a''"
  let ?i = "ustr ''Intro''"
  let ?f = "[8226] @ ustr '' First point''"
  let ?c = "ustr ''continuation of first''"
  let ?n = "ustr ''Notes:''"
  let ?p = "ustr ''plain line one''"
  note state_eval = page_state_def process_lines_def process_line_def flush_bullet_def
    truthy_def add_bullet_def add_bold_line_def levels_for_bullets_on_page_def Let_def
  have h1: "[?l] \<noteq> []" by simp
  have t: "choose_title latin1_ucd [?l] = None"
    by (simp add: choose_title_def looks_like_heading_def text_eval latin1_eval)
  have h2: "\<not> page_skipped latin1_ucd [?l]"
    by (simp add: page_skipped_def t title_skips_page_def truthy_def)
  have nh: "\<not> looks_like_heading latin1_ucd ?l"
    by (simp add: looks_like_heading_def text_eval latin1_eval)
  have bl: "bullet_text ?l = None" by (simp add: text_eval)
  have s1: "page_state latin1_ucd double_ops False [?l] [] []
      = \<lparr> doc = [], current_bullet = None, current_level = 0, bullet_level_idx = 0 \<rparr>"
    using t nh bl by (simp add: state_eval)
  have c: "convert_page latin1_ucd double_ops False [?l] [] [] = [blank_paragraph]"
    using page_ends_with_one_blank[OF h1 h2, where fp = double_ops and force = False
        and xs = "[]" and d = "[]", THEN conjunct2, THEN conjunct1, unfolded s1]
    by (simp add: truthy_def)
  have g1: "[?b] \<noteq> []" by simp
  have bt: "bullet_text (last [?b]) = Some (ustr ''a'')"
    by (simp add: text_eval)
  have t2: "choose_title latin1_ucd [?b] = None"
    using bt by (simp add: choose_title_def)
  have g2: "\<not> page_skipped latin1_ucd [?b]"
    using t2 by (simp add: page_skipped_def title_skips_page_def truthy_def)
  have s2: "page_state latin1_ucd double_ops False [?b] [] []
      = \<lparr> doc = [], current_bullet = Some (ustr ''a''), current_level = 0,
          bullet_level_idx = 0 \<rparr>"
    using t2 bt by (simp add: state_eval)
  have sa: "strip (ustr ''a'') = ustr ''a''" "ustr ''a'' \<noteq> []" by (simp_all add: text_eval)
  have c2: "convert_page latin1_ucd double_ops False [?b] [] []
      = [bullet_paragraph (ustr ''a'') 0, blank_paragraph]"
    using page_ends_with_one_blank[OF g1 g2, where fp = double_ops and force = False
        and xs = "[]" and d = "[]", THEN conjunct2, THEN conjunct1, unfolded s2]
    by (simp add: sa truthy_def)
  have k1: "[?i, ?f, ?c] \<noteq> []" by simp
  have hi: "looks_like_heading latin1_ucd ?i"
    by (simp add: looks_like_heading_def text_eval latin1_eval)
  have bi: "bullet_text ?i = None" by (simp add: text_eval)
  have t3: "choose_title latin1_ucd [?i, ?f, ?c] = Some ?i"
    using hi bi by (simp add: choose_title_def)
  have k2: "\<not> page_skipped latin1_ucd [?i, ?f, ?c]"
    unfolding page_skipped_def t3 by (simp add: title_skips_page_def text_eval latin1_eval)
  have sp: "[?i, ?f, ?c] = [?i] @ ?f # [?c]" by simp
  have bf: "bullet_text ?f = Some (ustr ''First point'')" by (simp add: text_eval)
  have bc: "bullet_text ?c = None" by (simp add: text_eval)
  have hc: "\<not> looks_like_heading latin1_ucd ?c"
    by (simp add: looks_like_heading_def text_eval latin1_eval)
  have tc: "Some ?c \<noteq> choose_title latin1_ucd [?i, ?f, ?c]"
    unfolding t3 by (simp add: ustr_def)
  have ti: "Some ?f \<noteq> Some ?i" "Some ?c \<noteq> Some ?i" by (simp_all add: ustr_def)
  have jn: "strip (foldl (\<lambda>b c. b @ [32] @ c) (ustr ''First point'') [?c])
      = ustr ''First point continuation of first''"
    by (simp add: text_eval)
  have s3: "page_state latin1_ucd double_ops False [?i, ?f, ?c] [] []
      = \<lparr> doc = [bold_line_paragraph ?i],
          current_bullet = Some (ustr ''First point'' @ [32] @ ?c), current_level = 0,
          bullet_level_idx = 0 \<rparr>"
    by (simp add: state_eval choose_title_def looks_like_heading_def text_eval latin1_eval)
  have c3: "convert_page latin1_ucd double_ops False [?i, ?f, ?c] [] []
      = [bold_line_paragraph ?i,
         bullet_paragraph (ustr ''First point continuation of first'') 0, blank_paragraph]"
    using page_ends_with_one_blank[OF k1 k2, where fp = double_ops and force = False
        and xs = "[]" and d = "[]", THEN conjunct2, THEN conjunct1, unfolded s3] jn
    by (simp add: truthy_def)
  have m1: "[?n, ?p] \<noteq> []" by simp
  have hn: "looks_like_heading latin1_ucd ?n"
    by (simp add: looks_like_heading_def text_eval latin1_eval)
  have bn: "bullet_text ?n = None" by (simp add: text_eval)
  have t4: "choose_title latin1_ucd [?n, ?p] = Some ?n"
    using hn bn by (simp add: choose_title_def)
  have m2: "\<not> page_skipped latin1_ucd [?n, ?p]"
    unfolding page_skipped_def t4 by (simp add: title_skips_page_def text_eval latin1_eval)
  have pn: "last [?n, ?p] \<noteq> []" by (simp add: ustr_def)
  have bp: "bullet_text (last [?n, ?p]) = None" by (simp add: text_eval)
  have hp: "\<not> looks_like_heading latin1_ucd (last [?n, ?p])"
    by (simp add: looks_like_heading_def text_eval latin1_eval)
  have tp: "Some (last [?n, ?p]) \<noteq> choose_title latin1_ucd [?n, ?p]"
    unfolding t4 by (simp add: ustr_def)
  have stp: "strip ?p = ?p" by (simp add: text_eval)
  have bp': "bullet_text ?p = None" "\<not> looks_like_heading latin1_ucd ?p" "Some ?p \<noteq> Some ?n"
    using bp hp tp t4 by simp_all
  have s4: "page_state latin1_ucd double_ops True [?n, ?p] [] []
      = \<lparr> doc = [bold_line_paragraph ?n], current_bullet = Some ?p, current_level = 0,
          bullet_level_idx = 0 \<rparr>"
    by (simp add: state_eval choose_title_def looks_like_heading_def text_eval latin1_eval)
  have c4: "convert_page latin1_ucd double_ops True [?n, ?p] [] []
      = [bold_line_paragraph ?n, bullet_paragraph ?p 0, blank_paragraph]"
    using page_ends_with_one_blank[OF m1 m2, where fp = double_ops and force = True
        and xs = "[]" and d = "[]", THEN conjunct2, THEN conjunct1, unfolded s4] stp pn
    by (simp add: truthy_def)
  from h1 h2 c g2 bt c2 k2 sp bf bc hc tc jn c3 m2 pn bp hp tp c4
  show ?thesis by blast
qed

section \<open>Results: structural postprocessor\<close>

lemma startswith_List_Bullet: "startswith ''List Bullet'' ''List''"
  by (simp add: startswith_def)

lemma heading_not_bullet: "is_heading p \<Longrightarrow> \<not> is_bullet p"
  by (simp add: is_heading_def is_bullet_def split: if_splits)

lemma bullet_before_heading_iff:
  "bullet_before_heading rest =
     (\<exists>j<length rest. is_bullet (rest ! j) \<and> (\<forall>k<j. \<not> is_heading (rest ! k)))"
proof (induction rest)
  case Nil
  then show ?case by simp
next
  case (Cons nxt rest)
  show ?case
  proof (cases "is_heading nxt")
    case True
    have "\<not> (\<exists>j<length (nxt # rest). is_bullet ((nxt # rest) ! j) \<and> (\<forall>k<j. \<not> is_heading ((nxt # rest) ! k)))"
    proof
      assume "\<exists>j<length (nxt # rest). is_bullet ((nxt # rest) ! j) \<and> (\<forall>k<j. \<not> is_heading ((nxt # rest) ! k))"
      then obtain j where j: "is_bullet ((nxt # rest) ! j)" "\<forall>k<j. \<not> is_heading ((nxt # rest) ! k)"
        by blast
      show False
      proof (cases j)
        case 0
        with j(1) True show False by (simp add: heading_not_bullet)
      next
        case (Suc j')
        with j(2) have "\<not> is_heading ((nxt # rest) ! 0)" by blast
        with True show False by simp
      qed
    qed
    with True show ?thesis by simp
  next
    case False
    show ?thesis
    proof (cases "is_bullet nxt")
      case True
      then have "\<exists>j<length (nxt # rest). is_bullet ((nxt # rest) ! j) \<and> (\<forall>k<j. \<not> is_heading ((nxt # rest) ! k))"
        by (intro exI[of _ 0]) simp
      with False True show ?thesis by simp
    next
      case nb: False
      have "(\<exists>j<length (nxt # rest). is_bullet ((nxt # rest) ! j) \<and> (\<forall>k<j. \<not> is_heading ((nxt # rest) ! k)))
          = (\<exists>j<length rest. is_bullet (rest ! j) \<and> (\<forall>k<j. \<not> is_heading (rest ! k)))"
        (is "?L = ?R")
      proof
        assume ?L
        then obtain j where j: "j < length (nxt # rest)" "is_bullet ((nxt # rest) ! j)"
          "\<forall>k<j. \<not> is_heading ((nxt # rest) ! k)" by blast
        from j(2) nb obtain j' where j': "j = Suc j'" by (cases j) auto
        have "\<forall>k<j'. \<not> is_heading (rest ! k)"
        proof (intro allI impI)
          fix k assume "k < j'"
          then have "Suc k < j" using j' by simp
          with j(3) have "\<not> is_heading ((nxt # rest) ! Suc k)" by blast
          then show "\<not> is_heading (rest ! k)" by simp
        qed
        with j j' show ?R by auto
      next
        assume ?R
        then obtain j where j: "j < length rest" "is_bullet (rest ! j)"
          "\<forall>k<j. \<not> is_heading (rest ! k)" by blast
        have "\<forall>k<Suc j. \<not> is_heading ((nxt # rest) ! k)"
        proof (intro allI impI)
          fix k assume k: "k < Suc j"
          show "\<not> is_heading ((nxt # rest) ! k)"
            using False j(3) k by (cases k) auto
        qed
        with j show ?L by (intro exI[of _ "Suc j"]) simp
      qed
      with False nb Cons.IH show ?thesis by simp
    qed
  qed
qed

lemma bullet_before_heading_drop:
  assumes "i < length ps"
  shows "bullet_before_heading (drop (i + 1) ps) =
     (\<exists>j. i < j \<and> j < length ps \<and> is_bullet (ps ! j) \<and> (\<forall>k. i < k \<and> k < j \<longrightarrow> \<not> is_heading (ps ! k)))"
    (is "_ = ?R")
proof -
  let ?L = "\<exists>j<length (drop (i + 1) ps). is_bullet (drop (i + 1) ps ! j)
      \<and> (\<forall>k<j. \<not> is_heading (drop (i + 1) ps ! k))"
  have "?L = ?R"
  proof
    assume ?L
    then obtain j where j: "j < length ps - (i + 1)" "is_bullet (ps ! (i + 1 + j))"
      "\<forall>k<j. \<not> is_heading (ps ! (i + 1 + k))"
      using assms by auto
    have "\<forall>k. i < k \<and> k < i + 1 + j \<longrightarrow> \<not> is_heading (ps ! k)"
    proof (intro allI impI)
      fix k assume k: "i < k \<and> k < i + 1 + j"
      then have "k - (i + 1) < j" by arith
      with j(3) have "\<not> is_heading (ps ! (i + 1 + (k - (i + 1))))" by blast
      with k show "\<not> is_heading (ps ! k)" by simp
    qed
    with j show ?R by (intro exI[of _ "i + 1 + j"]) auto
  next
    assume ?R
    then obtain j where j: "i < j" "j < length ps" "is_bullet (ps ! j)"
      "\<forall>k. i < k \<and> k < j \<longrightarrow> \<not> is_heading (ps ! k)" by blast
    have "\<forall>k<j - (i + 1). \<not> is_heading (drop (i + 1) ps ! k)"
      using j assms by auto
    moreover have "is_bullet (drop (i + 1) ps ! (j - (i + 1)))" using j assms by simp
    moreover have "j - (i + 1) < length (drop (i + 1) ps)" using j assms by simp
    ultimately show ?L by blast
  qed
  then show ?thesis by (simp only: bullet_before_heading_iff)
qed

lemma to_delete_idxs_iff:
  "i < length ps \<Longrightarrow>
   (i \<in> set (to_delete_idxs ps)) =
   (is_heading (ps ! i) \<and>
    \<not> (\<exists>j. i < j \<and> j < length ps \<and> is_bullet (ps ! j) \<and> (\<forall>k. i < k \<and> k < j \<longrightarrow> \<not> is_heading (ps ! k))))"
  using bullet_before_heading_drop[of i ps] by (simp add: to_delete_idxs_def)

lemma foldl_remove_element:
  "foldl remove_element body idxs = filter (\<lambda>e. fst e \<notin> set idxs) body"
proof (induction idxs arbitrary: body)
  case Nil
  then show ?case by simp
next
  case (Cons i idxs)
  show ?case by (simp add: Cons.IH) (simp add: remove_element_def conj_commute)
qed

lemma enumerate_as_map: "enumerate 0 ps = map (\<lambda>i. (i, ps ! i)) [0..<length ps]"
  by (rule nth_equalityI) (simp_all add: nth_enumerate_eq)

lemma remove_orphan_headings_survivors:
  "remove_orphan_headings ps =
     map ((!) ps) (filter (\<lambda>i. i \<notin> set (to_delete_idxs ps)) [0..<length ps])"
  by (simp add: remove_orphan_headings_def foldl_remove_element enumerate_as_map filter_map
      comp_def)

lemma set_font_idem [simp]: "set_font_aptos_12 (set_font_aptos_12 r) = set_font_aptos_12 r"
  by (simp add: set_font_aptos_12_def)

lemma run_text_set_font [simp]: "run_text (set_font_aptos_12 r) = run_text r"
  by (simp add: set_font_aptos_12_def)

lemma run_bold_set_font [simp]: "run_bold (set_font_aptos_12 r) = run_bold r"
  by (simp add: set_font_aptos_12_def)

lemma enforce_idem [simp]: "enforce_aptos_12 (enforce_aptos_12 p) = enforce_aptos_12 p"
  by (simp add: enforce_aptos_12_def comp_def)

lemma enforce_fields [simp]:
  "para_style (enforce_aptos_12 p) = para_style p"
  "left_indent (enforce_aptos_12 p) = left_indent p"
  "first_line_indent (enforce_aptos_12 p) = first_line_indent p"
  "para_text (enforce_aptos_12 p) = para_text p"
  by (simp_all add: enforce_aptos_12_def para_text_def comp_def)

lemma all_bold_set_font [simp]:
  "all_nonempty_runs_bold any (map set_font_aptos_12 rs) = all_nonempty_runs_bold any rs"
  by (induction rs arbitrary: any) simp_all

lemma is_heading_enforce [simp]: "is_heading (enforce_aptos_12 p) = is_heading p"
  by (simp add: is_heading_def) (simp add: enforce_aptos_12_def)

lemma is_bullet_enforce [simp]: "is_bullet (enforce_aptos_12 p) = is_bullet p"
  by (simp add: is_bullet_def)

lemma indent_fields [simp]:
  "para_style (apply_level_indent p l) = para_style p"
  "para_runs (apply_level_indent p l) = para_runs p"
  "para_text (apply_level_indent p l) = para_text p"
  "first_line_indent (apply_level_indent p l) = Some (Pt (- pt_of HANG))"
  by (simp_all add: apply_level_indent_def para_text_def Let_def)

lemma is_bullet_indent [simp]: "is_bullet (apply_level_indent p l) = is_bullet p"
  by (simp add: is_bullet_def)

lemma bold_fields [simp]:
  "para_style (bold_nonempty_runs p) = para_style p"
  "left_indent (bold_nonempty_runs p) = left_indent p"
  "first_line_indent (bold_nonempty_runs p) = first_line_indent p"
  by (simp_all add: bold_nonempty_runs_def)

lemma run_text_keep_bold [simp]: "run_text (keep_bold r) = run_text r"
  by (simp add: keep_bold_def)

lemma para_text_bold [simp]: "para_text (bold_nonempty_runs p) = para_text p"
  by (simp add: bold_nonempty_runs_def para_text_def comp_def)

lemma para_text_style_update [simp]: "para_text (p\<lparr>para_style := sty\<rparr>) = para_text p"
  by (simp add: para_text_def)

lemma enforce_indent_commute:
  "enforce_aptos_12 (apply_level_indent p l) = apply_level_indent (enforce_aptos_12 p) l"
  by (simp add: enforce_aptos_12_def apply_level_indent_def Let_def)

lemma styles_lookup_Inr: "styles_lookup styles n = Inr sty \<Longrightarrow> sty = n \<and> n \<in> set styles"
  by (simp add: styles_lookup_def split: if_splits)

lemma emit_Inr: "emit p r = Inr out \<Longrightarrow> \<exists>ps. r = Inr ps \<and> out = p # ps"
  by (cases r) (simp_all add: emit_def)

lemma is_bullet_List_Bullet: "para_style p = ''List Bullet'' \<Longrightarrow> is_bullet p"
  by (simp add: is_bullet_def startswith_def)

lemma not_heading_List_Bullet: "para_style p = ''List Bullet'' \<Longrightarrow> \<not> is_heading p"
  by (simp add: is_heading_def startswith_def)

lemma canonical_restyled:
  assumes "para_style q = ''List Bullet''" "first_line_indent q = Some (Pt (- pt_of HANG))"
  shows "canonical (enforce_aptos_12 q)"
  using assms by (simp add: canonical_def is_bullet_List_Bullet not_heading_List_Bullet)

lemma canonical_plain:
  assumes "\<not> is_heading p" "\<not> is_bullet p"
  shows "canonical (enforce_aptos_12 p)"
  using assms by (simp add: canonical_def)

lemma restyle_loop_canonical:
  "restyle_loop styles b ps = Inr out \<Longrightarrow>
   list_all canonical out \<and> (list_ex is_bullet out \<longrightarrow> ''List Bullet'' \<in> set styles)
   \<and> map para_text out = map para_text ps"
proof (induction ps arbitrary: b out)
  case Nil
  then show ?case by simp
next
  case (Cons p ps)
  show ?case
  proof (cases "is_heading p")
    case True
    from Cons.prems True obtain sty where l: "styles_lookup styles ''List Bullet'' = Inr sty"
      by (auto split: sum.splits)
    then have sty: "sty = ''List Bullet''" "''List Bullet'' \<in> set styles"
      using styles_lookup_Inr by auto
    let ?p' = "enforce_aptos_12 (bold_nonempty_runs (apply_level_indent (p\<lparr>para_style := sty\<rparr>) 0))"
    from Cons.prems True l obtain out' where
      r: "restyle_loop styles True ps = Inr out'" and o: "out = ?p' # out'"
      by (auto dest: emit_Inr)
    have c: "canonical ?p'" by (rule canonical_restyled) (simp_all add: sty)
    have t: "para_text ?p' = para_text p" by simp
    from Cons.IH[OF r] c t sty o show ?thesis by simp
  next
    case nh: False
    show ?thesis
    proof (cases "is_bullet p")
      case True
      let ?lv = "if b then min (bullet_level_from_style_name (para_style p) + 1) 2
                 else bullet_level_from_style_name (para_style p)"
      from Cons.prems nh True obtain sty where l: "styles_lookup styles ''List Bullet'' = Inr sty"
        by (auto simp: Let_def split: sum.splits if_splits)
      then have sty: "sty = ''List Bullet''" "''List Bullet'' \<in> set styles"
        using styles_lookup_Inr by auto
      let ?p' = "enforce_aptos_12 (apply_level_indent (p\<lparr>para_style := sty\<rparr>) ?lv)"
      from Cons.prems nh True l obtain out' b' where
        r: "restyle_loop styles b' ps = Inr out'" and o: "out = ?p' # out'"
        by (auto simp: Let_def dest: emit_Inr split: if_splits)
      have c: "canonical ?p'" by (rule canonical_restyled) (simp_all add: sty)
      have t: "para_text ?p' = para_text p" by simp
      from Cons.IH[OF r] c t sty o show ?thesis by simp
    next
      case False
      from Cons.prems nh False obtain out' b' where
        r: "restyle_loop styles b' ps = Inr out'" and o: "out = enforce_aptos_12 p # out'"
        by (auto simp: Let_def dest: emit_Inr split: if_splits)
      have c: "canonical (enforce_aptos_12 p)" using nh False by (rule canonical_plain)
      from Cons.IH[OF r] c False o show ?thesis by simp
    qed
  qed
qed

lemma canonical_second_step:
  assumes "canonical p"
  shows "\<not> is_heading p" "enforce_aptos_12 p = p"
    "is_bullet p \<Longrightarrow> para_style p = ''List Bullet'' \<and> first_line_indent p = Some (Pt (- pt_of HANG))"
  using assms unfolding canonical_def by blast+

lemma style_update_same: "para_style p = s \<Longrightarrow> p\<lparr>para_style := s\<rparr> = p"
  by (cases p) simp

lemma second_step_bullet:
  assumes "canonical p" "is_bullet p" "''List Bullet'' \<in> set styles"
  shows "restyle_loop styles False (p # out)
     = emit (apply_level_indent p 0) (restyle_loop styles False out)"
proof -
  note c = canonical_second_step[OF assms(1)]
  from c(3)[OF assms(2)] have sty: "para_style p = ''List Bullet''" by simp
  have e: "enforce_aptos_12 (apply_level_indent (p\<lparr>para_style := ''List Bullet''\<rparr>) 0)
        = apply_level_indent p 0"
    by (simp add: style_update_same[OF sty] enforce_indent_commute c(2))
  have l: "styles_lookup styles ''List Bullet'' = Inr ''List Bullet''"
    using assms(3) by (simp add: styles_lookup_def)
  have lv: "bullet_level_from_style_name (para_style p) = 0"
    by (simp add: sty bullet_level_from_style_name_def)
  show ?thesis
    by (simp add: c(1) assms(2) l lv e Let_def)
qed

lemma second_step_plain:
  assumes "canonical p" "\<not> is_bullet p"
  shows "restyle_loop styles False (p # out) = emit p (restyle_loop styles False out)"
  using canonical_second_step(1,2)[OF assms(1)] assms(2)
  by (simp add: Let_def)

lemma restyle_loop_second_run:
  "list_all canonical out \<Longrightarrow> (list_ex is_bullet out \<longrightarrow> ''List Bullet'' \<in> set styles) \<Longrightarrow>
   restyle_loop styles False out = Inr (map reset_to_level_0 out)"
proof (induction out)
  case Nil
  then show ?case by simp
next
  case (Cons p out)
  from Cons.prems have cp: "canonical p" and rest: "list_all canonical out"
    and st: "list_ex is_bullet out \<longrightarrow> ''List Bullet'' \<in> set styles" by auto
  note IH = Cons.IH[OF rest st]
  show ?case
  proof (cases "is_bullet p")
    case True
    with Cons.prems(2) have lb: "''List Bullet'' \<in> set styles" by simp
    show ?thesis
      by (simp only: second_step_bullet[OF cp True lb] IH)
         (simp add: emit_def reset_to_level_0_def True)
  next
    case False
    show ?thesis
      by (simp only: second_step_plain[OF cp False] IH)
         (simp add: emit_def reset_to_level_0_def False)
  qed
qed

lemma no_heading_nothing_deleted:
  assumes "list_all (\<lambda>p. \<not> is_heading p) out"
  shows "remove_orphan_headings out = out"
proof -
  have "to_delete_idxs out = []"
    using assms by (auto simp: to_delete_idxs_def filter_empty_conv list_all_length)
  then show ?thesis
    by (simp add: remove_orphan_headings_survivors map_nth)
qed

lemma postprocess_second_run:
  assumes "postprocess_formatting styles ps = Inr out"
  shows "postprocess_formatting styles out = Inr (map reset_to_level_0 out)"
proof -
  from assms have r: "restyle_loop styles False (remove_orphan_headings ps) = Inr out"
    by (simp add: postprocess_formatting_def)
  note c = restyle_loop_canonical[OF r]
  from c have "list_all (\<lambda>p. \<not> is_heading p) out"
    by (auto simp: list_all_iff canonical_second_step(1))
  then have "remove_orphan_headings out = out" by (rule no_heading_nothing_deleted)
  with c show ?thesis
    by (simp add: postprocess_formatting_def restyle_loop_second_run)
qed

lemma restyle_loop_text:
  "restyle_loop styles b ps = Inr out \<Longrightarrow> map para_text out = map para_text ps"
  using restyle_loop_canonical by blast

text \<open>
  C7: the paragraphs left by the first pass are, in order, those whose index is not marked
  for deletion; an index is marked exactly when its paragraph is a heading and no bullet
  paragraph comes after it before the next heading or the end; and a successful run
  returns the text of exactly the paragraphs that were left.
\<close>

theorem orphan_heading_removal:
  "remove_orphan_headings ps
     = map ((!) ps) (filter (\<lambda>i. i \<notin> set (to_delete_idxs ps)) [0..<length ps])
   \<and> (\<forall>i<length ps.
        (i \<in> set (to_delete_idxs ps)) =
        (is_heading (ps ! i) \<and>
         \<not> (\<exists>j. i < j \<and> j < length ps \<and> is_bullet (ps ! j)
                \<and> (\<forall>k. i < k \<and> k < j \<longrightarrow> \<not> is_heading (ps ! k)))))
   \<and> (\<forall>out. postprocess_formatting styles ps = Inr out \<longrightarrow>
        map para_text out = map para_text (remove_orphan_headings ps))"
  using to_delete_idxs_iff[of _ ps]
  by (auto simp: remove_orphan_headings_survivors postprocess_formatting_def
      dest: restyle_loop_text)

lemmas post_eval = postprocess_formatting_def remove_orphan_headings_def to_delete_idxs_def
  remove_element_def enumerate_eq_zip styles_lookup_def default_template_styles_def emit_def
  enforce_aptos_12_def bold_nonempty_runs_def keep_bold_def bullet_level_from_style_name_def

theorem orphan_heading_removal_witness:
  "to_delete_idxs [bold_line_paragraph (ustr ''A''), bold_line_paragraph (ustr ''B''),
       bullet_paragraph (ustr ''x'') 0] = [0]
   \<and> remove_orphan_headings [bold_line_paragraph (ustr ''A''), bold_line_paragraph (ustr ''B''),
       bullet_paragraph (ustr ''x'') 0]
     = [bold_line_paragraph (ustr ''B''), bullet_paragraph (ustr ''x'') 0]
   \<and> map_sum id (map para_text)
       (postprocess_formatting default_template_styles
          [bold_line_paragraph (ustr ''A''), bold_line_paragraph (ustr ''B''),
           bullet_paragraph (ustr ''x'') 0])
     = Inr [ustr ''B'', ustr ''x'']"
proof -
  let ?ps = "[bold_line_paragraph (ustr ''A''), bold_line_paragraph (ustr ''B''),
       bullet_paragraph (ustr ''x'') 0]"
  have h: "is_heading (bold_line_paragraph (ustr ''A''))" "is_heading (bold_line_paragraph (ustr ''B''))"
    "\<not> is_heading (bullet_paragraph (ustr ''x'') 0)" "is_bullet (bullet_paragraph (ustr ''x'') 0)"
    by (simp_all add: para_eval text_eval)
  have l: "[0..<length ?ps] = [0, 1, 2]" by (simp add: upt_conv_Cons)
  have d: "to_delete_idxs ?ps = [0]"
    unfolding to_delete_idxs_def l by (simp add: h)
  have t: "map para_text [bold_line_paragraph (ustr ''B''), bullet_paragraph (ustr ''x'') 0]
      = [ustr ''B'', ustr ''x'']"
    by (simp add: para_eval ustr_def)
  note r = orphan_heading_removal[of ?ps default_template_styles]
  from r have s: "remove_orphan_headings ?ps
      = [bold_line_paragraph (ustr ''B''), bullet_paragraph (ustr ''x'') 0]"
    unfolding d l by simp
  obtain out where o: "postprocess_formatting default_template_styles ?ps = Inr out"
    unfolding postprocess_formatting_def s
    by (simp add: h styles_lookup_def default_template_styles_def emit_def Let_def)
  with r have "map para_text out = map para_text (remove_orphan_headings ?ps)" by blast
  with o s t d show ?thesis by simp
qed

lemma reset_fields:
  "para_runs (reset_to_level_0 p) = para_runs p"
  "para_style (reset_to_level_0 p) = para_style p"
  "left_indent (reset_to_level_0 p) = (if is_bullet p then Some (Pt 18) else left_indent p)"
  by (simp_all add: reset_to_level_0_def indent_eval)

lemma reset_idem: "reset_to_level_0 (reset_to_level_0 p) = reset_to_level_0 p"
  by (simp add: reset_to_level_0_def) (simp add: apply_level_indent_def Let_def)

text \<open>
  C2, as stated, fails: a heading followed by a level-0 bullet comes out of the first run
  as two \<open>List Bullet\<close> paragraphs with left indents of 18 and 36 points; the second run
  reads level 0 off the style name and moves the bullet back to 18 points.
\<close>

theorem second_run_counterexample:
  "postprocess_formatting default_template_styles
      [bold_line_paragraph (ustr ''Topic''), bullet_paragraph (ustr ''point'') 0]
     = Inr [(bold_line_paragraph (ustr ''Topic''))
              \<lparr> para_style := ''List Bullet'', left_indent := Some 228600,
                first_line_indent := Some (- 228600) \<rparr>,
            (bullet_paragraph (ustr ''point'') 0)
              \<lparr> left_indent := Some 457200, first_line_indent := Some (- 228600) \<rparr>]
   \<and> postprocess_formatting default_template_styles
      [(bold_line_paragraph (ustr ''Topic''))
         \<lparr> para_style := ''List Bullet'', left_indent := Some 228600,
           first_line_indent := Some (- 228600) \<rparr>,
       (bullet_paragraph (ustr ''point'') 0)
         \<lparr> left_indent := Some 457200, first_line_indent := Some (- 228600) \<rparr>]
     = Inr [(bold_line_paragraph (ustr ''Topic''))
              \<lparr> para_style := ''List Bullet'', left_indent := Some 228600,
                first_line_indent := Some (- 228600) \<rparr>,
            (bullet_paragraph (ustr ''point'') 0)
              \<lparr> left_indent := Some 228600, first_line_indent := Some (- 228600) \<rparr>]"
  by (simp add: post_eval para_eval text_eval indent_eval upt_conv_Cons)

text \<open>
  C2, amended: a second run on the output of a first run deletes nothing and leaves every
  paragraph's runs (text, bold flags, fonts), style and first-line indent unchanged; the
  left indent of every list paragraph is set to 18 points (level 0) and that of any other
  paragraph is unchanged. A further run changes nothing more.
\<close>

theorem second_run_resets_levels:
  assumes "postprocess_formatting styles ps = Inr out"
  shows "postprocess_formatting styles out = Inr (map reset_to_level_0 out)
    \<and> (\<forall>p\<in>set out.
          para_runs (reset_to_level_0 p) = para_runs p
          \<and> para_style (reset_to_level_0 p) = para_style p
          \<and> first_line_indent (reset_to_level_0 p) = first_line_indent p
          \<and> left_indent (reset_to_level_0 p) = (if is_bullet p then Some (Pt 18) else left_indent p))
    \<and> postprocess_formatting styles (map reset_to_level_0 out) = Inr (map reset_to_level_0 out)"
proof -
  have one: "postprocess_formatting styles out = Inr (map reset_to_level_0 out)"
    using assms by (rule postprocess_second_run)
  from assms have "restyle_loop styles False (remove_orphan_headings ps) = Inr out"
    by (simp add: postprocess_formatting_def)
  then have c: "list_all canonical out" using restyle_loop_canonical by blast
  have fl: "first_line_indent (reset_to_level_0 p) = first_line_indent p" if "p \<in> set out" for p
  proof -
    from c that have "canonical p" by (simp add: list_all_iff)
    from canonical_second_step(3)[OF this] show ?thesis
      by (simp add: reset_to_level_0_def)
  qed
  have "postprocess_formatting styles (map reset_to_level_0 out)
      = Inr (map reset_to_level_0 (map reset_to_level_0 out))"
    using one by (rule postprocess_second_run)
  then have two: "postprocess_formatting styles (map reset_to_level_0 out) = Inr (map reset_to_level_0 out)"
    by (simp add: reset_idem comp_def)
  from one two fl show ?thesis by (simp add: reset_fields)
qed

theorem second_run_resets_levels_witness:
  "postprocess_formatting default_template_styles
      [bold_line_paragraph (ustr ''Topic''), bullet_paragraph (ustr ''point'') 0]
     = Inr [(bold_line_paragraph (ustr ''Topic''))
              \<lparr> para_style := ''List Bullet'', left_indent := Some 228600,
                first_line_indent := Some (- 228600) \<rparr>,
            (bullet_paragraph (ustr ''point'') 0)
              \<lparr> left_indent := Some 457200, first_line_indent := Some (- 228600) \<rparr>]
   \<and> postprocess_formatting default_template_styles
      [(bold_line_paragraph (ustr ''Topic''))
         \<lparr> para_style := ''List Bullet'', left_indent := Some 228600,
           first_line_indent := Some (- 228600) \<rparr>,
       (bullet_paragraph (ustr ''point'') 0)
         \<lparr> left_indent := Some 457200, first_line_indent := Some (- 228600) \<rparr>]
     = Inr (map reset_to_level_0
         [(bold_line_paragraph (ustr ''Topic''))
            \<lparr> para_style := ''List Bullet'', left_indent := Some 228600,
              first_line_indent := Some (- 228600) \<rparr>,
          (bullet_paragraph (ustr ''point'') 0)
            \<lparr> left_indent := Some 457200, first_line_indent := Some (- 228600) \<rparr>])"
proof -
  have h: "postprocess_formatting default_template_styles
      [bold_line_paragraph (ustr ''Topic''), bullet_paragraph (ustr ''point'') 0]
     = Inr [(bold_line_paragraph (ustr ''Topic''))
              \<lparr> para_style := ''List Bullet'', left_indent := Some 228600,
                first_line_indent := Some (- 228600) \<rparr>,
            (bullet_paragraph (ustr ''point'') 0)
              \<lparr> left_indent := Some 457200, first_line_indent := Some (- 228600) \<rparr>]"
    by (simp add: post_eval para_eval text_eval indent_eval upt_conv_Cons)
  from second_run_resets_levels[OF h] h show ?thesis by blast
qed

section \<open>The scenarios of the specification\<close>

text \<open>
  The end-to-end scenarios of the specification, run on the model: a title with two bullets
  and a continuation line; the glyph offsets 50, 50.3 and 90 in two columns, with 50.3 as
  the double nearest to it and every rounding of the computation written out; and the mode
  in which every plain line is a bullet of its own.
\<close>

lemmas assembler_eval = convert_page_def process_lines_def process_line_def flush_bullet_def
  choose_title_def title_skips_page_def truthy_def add_bullet_def add_bold_line_def
  levels_for_bullets_on_page_def looks_like_heading_def

lemma scenario_title_bullets_continuation:
  "convert_page latin1_ucd double_ops False
     [ustr ''Intro'', [8226] @ ustr '' First point'', ustr ''continuation of first'',
      [8226] @ ustr '' Second point''] [] []
   = [bold_line_paragraph (ustr ''Intro''),
      bullet_paragraph (ustr ''First point continuation of first'') 0,
      bullet_paragraph (ustr ''Second point'') 0,
      blank_paragraph]"
  by (simp add: assembler_eval text_eval latin1_eval Let_def)

lemma two_columns_round_0:
  "round_to_double (503 / 10) = 3539547832136499 / 70368744177664"
  using round_to_double_eq[of 5 "503 / 10"] by (simp add: double_eval)

lemma two_columns_round_1:
  "round_to_double (21110623253299 / 70368744177664) = 21110623253299 / 70368744177664"
  using round_to_double_eq[of "- 2" "21110623253299 / 70368744177664"] by (simp add: double_eval)

lemma two_columns_round_2:
  "round_to_double (2793639143853261 / 70368744177664) = 2793639143853261 / 70368744177664"
  using round_to_double_eq[of 5 "2793639143853261 / 70368744177664"] by (simp add: double_eval)

lemma two_columns_round_3:
  "round_to_double (7057985041019699 / 70368744177664) = 7057985041019699 / 70368744177664"
  using round_to_double_eq[of 6 "7057985041019699 / 70368744177664"] by (simp add: double_eval)

lemma two_columns_round_4:
  "round_to_double (7057985041019699 / 140737488355328) = 7057985041019699 / 140737488355328"
  using round_to_double_eq[of 5 "7057985041019699 / 140737488355328"] by (simp add: double_eval)

lemma two_columns_round_5:
  "round_to_double (- (21110623253299 / 140737488355328)) = - (21110623253299 / 140737488355328)"
  using round_to_double_eq[of "- 3" "- (21110623253299 / 140737488355328)"] by (simp add: double_eval)

lemma two_columns_round_6:
  "round_to_double (21110623253299 / 140737488355328) = 21110623253299 / 140737488355328"
  using round_to_double_eq[of "- 3" "21110623253299 / 140737488355328"] by (simp add: double_eval)

lemma two_columns_round_7:
  "round_to_double (5608388910959821 / 140737488355328) = 5608388910959821 / 140737488355328"
  using round_to_double_eq[of 5 "5608388910959821 / 140737488355328"] by (simp add: double_eval)

lemma two_columns_round_8:
  "round_to_double (- (2793639143853261 / 70368744177664)) = - (2793639143853261 / 70368744177664)"
  using round_to_double_eq[of 5 "- (2793639143853261 / 70368744177664)"] by (simp add: double_eval)

lemma scenario_two_columns:
  "levels_for_bullets_on_page double_ops [50, round_to_double (503 / 10), 90] = [0, 0, 1]"
  by (simp add: cluster_eval two_columns_round_0 two_columns_round_1 two_columns_round_2
      two_columns_round_3 two_columns_round_4 two_columns_round_5 two_columns_round_6
      two_columns_round_7 two_columns_round_8)

lemma scenario_all_lines_bullets:
  "convert_page latin1_ucd double_ops True
     [ustr ''Heading:'', ustr ''plain line one'', ustr ''plain line two''] [] []
   = [bold_line_paragraph (ustr ''Heading:''),
      bullet_paragraph (ustr ''plain line one'') 0,
      bullet_paragraph (ustr ''plain line two'') 0,
      blank_paragraph]"
  by (simp add: assembler_eval text_eval latin1_eval Let_def)

end
